theory Spec2Isabelle
  imports Main "HOL-Library.Char_ord" "HOL-Library.List_Lexorder" "HOL-Library.Multiset"
begin

section \<open>LedgerFlow: the ledger service\<close>

text \<open>
  A shallow embedding of \<^verbatim>\<open>services/ledgerService.ts\<close> and of the types it works on
  (\<^verbatim>\<open>types.ts\<close>).

  Conventions of the embedding.
  \<^item> A JavaScript string is a \<open>string\<close>; the characters are the code units 0..255.
    \<^verbatim>\<open>a <= b\<close> on strings is the lexicographic order of the code units, which is
    the order of \<open>HOL-Library.List_Lexorder\<close> over \<open>HOL-Library.Char_ord\<close>.
  \<^item> The JavaScript type \<^verbatim>\<open>number\<close> is the type parameter \<open>'n\<close>. Where balances
    are added, \<open>'n\<close> is any type with an addition and a zero (the classes \<open>plus\<close> and
    \<open>zero\<close>): no law of arithmetic is assumed of them, since the addition of the host's
    floating-point numbers rounds and is not associative. Where transactions are sorted
    \<open>'n\<close> is ordered (\<open>linorder\<close>). The conversions \<^verbatim>\<open>Number(s)\<close> and
    \<^verbatim>\<open>`${x}`\<close> of the host are parameters of the functions that call them.
  \<^item> The host's \<^verbatim>\<open>Date\<close> (its parser of date strings and its time zone) is the
    parameter \<open>Host\<close> of the functions that go through it.
  \<^item> An optional field (\<^verbatim>\<open>payee?: string\<close>) and a nullable one
    (\<^verbatim>\<open>parentId: string | null\<close>) are \<open>option\<close>s.
  \<^item> Record fields carry a prefix, since \<open>id\<close>, \<open>name\<close> and \<open>date\<close> are fields of
    several interfaces.
\<close>

subsection \<open>Types\<close>

datatype AccountType = ASSET | LIABILITY | INCOME | EXPENSE | EQUITY

record 'n Account =
  acc_id :: string
  acc_parentId :: "string option"
  acc_name :: string
  acc_type :: AccountType
  acc_budget :: "'n option"

record 'n Split =
  accountId :: string
  amount :: 'n

record 'n Transaction =
  tx_id :: string
  tx_date :: string
  tx_payee :: "string option"
  tx_description :: "string option"
  tx_splits :: "'n Split list"
  tx_createdAt :: 'n

datatype Frequency = daily | weekly | monthly | yearly

record 'n RecurringTransaction =
  rt_id :: string
  rt_frequency :: Frequency
  rt_nextDueDate :: string
  rt_payee :: string
  rt_description :: string
  rt_splits :: "'n Split list"
  rt_lastRun :: "string option"
  rt_active :: bool

record 'n FlattenedAccountBalance =
  fb_id :: string
  fb_name :: string
  fb_type :: AccountType
  fb_balance :: 'n
  fb_budget :: 'n

subsection \<open>The host's dates\<close>

text \<open>
  \<^verbatim>\<open>calculateNextDueDate\<close> goes through the host's \<^verbatim>\<open>Date\<close>. A \<^verbatim>\<open>Date\<close> holds a
  time value, a number of milliseconds since 1970-01-01T00:00Z, or \<^verbatim>\<open>NaN\<close>
  (\<^verbatim>\<open>Invalid Date\<close>). Here a time value is the calendar day (year, month from 1 to
  12, day of the month) together with the milliseconds gone of that day, and a
  \<^verbatim>\<open>Date\<close> is an \<open>option\<close>, \<open>None\<close> for \<^verbatim>\<open>Invalid Date\<close>.

  Three operations of \<^verbatim>\<open>Date\<close> are not fixed by the language but by the host the
  program runs on, and they are the fields of the record \<open>Host\<close>:
  \<^item> \<open>dateParse s\<close> is the time value of \<^verbatim>\<open>new Date(s)\<close>, in UTC. (A string
    \<^verbatim>\<open>YYYY-MM-DD\<close> that names a day of the calendar is read as midnight UTC of that
    day by every host; what other strings are read as is up to the host.)
  \<^item> \<open>localTime t\<close> is the host's \<^verbatim>\<open>LocalTime(t)\<close>: the UTC time value \<open>t\<close> as a
    day and time of day in the time zone of the host, with the daylight saving in force
    at \<open>t\<close>. The getters \<^verbatim>\<open>getDate\<close>, \<^verbatim>\<open>getMonth\<close> and \<^verbatim>\<open>getFullYear\<close> read
    its fields.
  \<^item> \<open>utcTime t\<close> is the host's \<^verbatim>\<open>UTC(t)\<close>, the way back: the UTC time value of the
    local day and time of day \<open>t\<close>. The setters \<^verbatim>\<open>setDate\<close>, \<^verbatim>\<open>setMonth\<close> and
    \<^verbatim>\<open>setFullYear\<close> replace a field of the local time and store \<^verbatim>\<open>UTC\<close> of it.
\<close>

type_synonym civilDate = "int \<times> int \<times> int"

type_synonym timeValue = "civilDate \<times> int"

record Host =
  dateParse :: "string \<Rightarrow> timeValue option"
  localTime :: "timeValue \<Rightarrow> timeValue"
  utcTime :: "timeValue \<Rightarrow> timeValue"

definition isLeapYear :: "int \<Rightarrow> bool" where
  "isLeapYear y = (y mod 4 = 0 \<and> (y mod 100 \<noteq> 0 \<or> y mod 400 = 0))"

definition daysInMonth :: "int \<Rightarrow> int \<Rightarrow> int" where
  "daysInMonth y m =
     (if m = 2 then (if isLeapYear y then 29 else 28)
      else if m = 4 \<or> m = 6 \<or> m = 9 \<or> m = 11 then 30
      else 31)"

text \<open>
  The setters hand year, month and day of the month to the host's \<^verbatim>\<open>MakeDay\<close>, which
  counts the days from the first of the month on, so that a day of the month beyond the
  end of its month runs into the following months. \<open>rollover\<close> is \<^verbatim>\<open>MakeDay\<close>
  followed by the reading of year, month and day from the day number: carry whole
  months (and a year after December) until the day fits.
\<close>

function rollover :: "int \<Rightarrow> int \<Rightarrow> int \<Rightarrow> civilDate" where
  "rollover y m d =
     (if daysInMonth y m < d
      then (if m = 12 then rollover (y + 1) 1 (d - daysInMonth y m)
            else rollover y (m + 1) (d - daysInMonth y m))
      else (y, m, d))"
  by pat_completeness auto
termination
  by (relation "measure (\<lambda>(y, m, d). nat d)")
     (auto simp: daysInMonth_def split: if_splits)

declare rollover.simps [simp del]

text \<open>
  \<^verbatim>\<open>TimeClip\<close>: a setter stores \<^verbatim>\<open>NaN\<close> when the new time value is more than
  8.64e15 milliseconds away from 1970, that is before -271821-04-20T00:00Z or after
  275760-09-13T00:00Z. \<open>dayKey\<close> orders the calendar days.
\<close>

definition dayKey :: "civilDate \<Rightarrow> int" where
  "dayKey date = (case date of (y, m, d) \<Rightarrow> (y * 12 + (m - 1)) * 31 + (d - 1))"

definition timeClip :: "timeValue \<Rightarrow> timeValue option" where
  "timeClip t =
     (case t of (date, ms) \<Rightarrow>
        if dayKey (- 271821, 4, 20) \<le> dayKey date
           \<and> (dayKey date < dayKey (275760, 9, 13)
                \<or> (dayKey date = dayKey (275760, 9, 13) \<and> ms = 0))
        then Some t else None)"

definition digitChar :: "int \<Rightarrow> char" where
  "digitChar d = char_of (nat (48 + d))"

fun padDigits :: "nat \<Rightarrow> int \<Rightarrow> string" where
  "padDigits 0 v = []"
| "padDigits (Suc k) v = padDigits k (v div 10) @ [digitChar (v mod 10)]"

text \<open>
  The date of \<^verbatim>\<open>toISOString()\<close>, the part before the \<^verbatim>\<open>T\<close>: a year from 0 to 9999
  is written with four digits, any other year with its sign and six digits.
\<close>

definition isoDate :: "civilDate \<Rightarrow> string" where
  "isoDate date =
     (case date of (y, m, d) \<Rightarrow>
        (if 0 \<le> y \<and> y \<le> 9999 then padDigits 4 y
         else if y < 0 then CHR ''-'' # padDigits 6 (- y)
         else CHR ''+'' # padDigits 6 y)
        @ ''-'' @ padDigits 2 m @ ''-'' @ padDigits 2 d)"

text \<open>
  The three helpers. \<^verbatim>\<open>new Date(date)\<close> copies the time value;
  \<^verbatim>\<open>result.getDate()\<close> is the day of the month of the local time and
  \<^verbatim>\<open>result.setDate(n)\<close> stores \<^verbatim>\<open>TimeClip(UTC(MakeDate(MakeDay(year, month, n), time of day)))\<close>
  with year, month and time of day of the local time; \<^verbatim>\<open>setMonth\<close> and
  \<^verbatim>\<open>setFullYear\<close> do the same with the month (which the host counts from 0) and the
  year. On \<^verbatim>\<open>Invalid Date\<close> the getters return \<^verbatim>\<open>NaN\<close> and the setters leave it.
\<close>

definition addDays :: "Host \<Rightarrow> timeValue option \<Rightarrow> int \<Rightarrow> timeValue option" where
  "addDays host date days =
     (case date of
        None \<Rightarrow> None
      | Some t \<Rightarrow>
          (case localTime host t of
             ((y, m, d), ms) \<Rightarrow> timeClip (utcTime host (rollover y m (d + days), ms))))"

definition addMonths :: "Host \<Rightarrow> timeValue option \<Rightarrow> int \<Rightarrow> timeValue option" where
  "addMonths host date months =
     (case date of
        None \<Rightarrow> None
      | Some t \<Rightarrow>
          (case localTime host t of
             ((y, m, d), ms) \<Rightarrow>
               timeClip (utcTime host
                 (rollover (y + (m - 1 + months) div 12) ((m - 1 + months) mod 12 + 1) d, ms))))"

definition addYears :: "Host \<Rightarrow> timeValue option \<Rightarrow> int \<Rightarrow> timeValue option" where
  "addYears host date years =
     (case date of
        None \<Rightarrow> None
      | Some t \<Rightarrow>
          (case localTime host t of
             ((y, m, d), ms) \<Rightarrow> timeClip (utcTime host (rollover (y + years) m d, ms))))"

text \<open>
  \<^verbatim>\<open>calculateNextDueDate(currentDate, frequency)\<close>. The \<^verbatim>\<open>switch\<close> has a case for
  each of the four frequencies. \<^verbatim>\<open>nextDate.toISOString()\<close> throws a \<^verbatim>\<open>RangeError\<close>
  on \<^verbatim>\<open>Invalid Date\<close>, which is the result \<open>None\<close>; otherwise it prints the UTC
  time value, of which \<^verbatim>\<open>split('T')[0]\<close> keeps the day.
\<close>

definition calculateNextDueDate :: "Host \<Rightarrow> string \<Rightarrow> Frequency \<Rightarrow> string option" where
  "calculateNextDueDate host currentDate frequency =
     (let dateObj = dateParse host currentDate;
          nextDate = (case frequency of
                        daily \<Rightarrow> addDays host dateObj 1
                      | weekly \<Rightarrow> addDays host dateObj 7
                      | monthly \<Rightarrow> addMonths host dateObj 1
                      | yearly \<Rightarrow> addYears host dateObj 1)
      in case nextDate of
           None \<Rightarrow> None
         | Some (date, ms) \<Rightarrow> Some (isoDate date))"

text \<open>
  For the statements: one period after a calendar day, in the words of the
  specification (``daily: +1 day; weekly: +7 days; monthly: +1 calendar month; yearly:
  +1 calendar year, using standard calendar rollover rules for month/day overflow'').
  \<open>nextDay\<close> is the day after a day. One month after the day \<open>d\<close> of a month is
  \<open>d - 1\<close> days after the first of the next month, and so the day \<open>d\<close> of the next
  month when it has one; likewise for a year. \<open>validDate\<close> holds of the days of the
  calendar and \<open>dayKey\<close> orders them.
\<close>

definition validDate :: "civilDate \<Rightarrow> bool" where
  "validDate date = (case date of (y, m, d) \<Rightarrow> 1 \<le> m \<and> m \<le> 12 \<and> 1 \<le> d \<and> d \<le> daysInMonth y m)"

definition nextDay :: "civilDate \<Rightarrow> civilDate" where
  "nextDay date =
     (case date of (y, m, d) \<Rightarrow>
        if d < daysInMonth y m then (y, m, d + 1)
        else if m < 12 then (y, m + 1, 1)
        else (y + 1, 1, 1))"

definition periodAfter :: "Frequency \<Rightarrow> civilDate \<Rightarrow> civilDate" where
  "periodAfter frequency date =
     (case date of (y, m, d) \<Rightarrow>
        (case frequency of
           daily \<Rightarrow> nextDay date
         | weekly \<Rightarrow> (nextDay ^^ 7) date
         | monthly \<Rightarrow> (nextDay ^^ nat (d - 1)) (if m = 12 then (y + 1, 1, 1) else (y, m + 1, 1))
         | yearly \<Rightarrow> (nextDay ^^ nat (d - 1)) (y + 1, m, 1)))"

text \<open>
  A host whose local time is UTC.
\<close>

definition utcZone :: "Host \<Rightarrow> bool" where
  "utcZone host = (\<forall>t. localTime host t = t \<and> utcTime host t = t)"

subsection \<open>The recurrence engine\<close>

text \<open>
  \<^verbatim>\<open>processDueRecurringTransactions(recurringList, currentTransactions)\<close> reads four
  things that are not among its parameters: the date of the system clock
  (\<^verbatim>\<open>new Date().toISOString().split('T')[0]\<close>, the UTC day, once, on entry), the
  time of the system clock (\<^verbatim>\<open>Date.now()\<close>, once for each transaction it emits), the
  random generator (\<^verbatim>\<open>generateId()\<close>, that is
  \<^verbatim>\<open>Math.random().toString(36).substr(2, 9)\<close>, once for each transaction it emits)
  and, in \<^verbatim>\<open>calculateNextDueDate\<close>, the host's \<^verbatim>\<open>Date\<close> with its parser and its time
  zone. The record \<open>Ambient\<close> holds what these reads return during one call: the
  \<open>k\<close>-th call of \<^verbatim>\<open>Date.now()\<close> returns \<open>dateNow k\<close> and the \<open>k\<close>-th call of
  \<^verbatim>\<open>generateId()\<close> returns \<open>generateId k\<close>, counting from 0.
\<close>

record 'n Ambient =
  clockToday :: string
  dateNow :: "nat \<Rightarrow> 'n"
  generateId :: "nat \<Rightarrow> string"
  dateHost :: Host

text \<open>
  The test of the callback's \<^verbatim>\<open>if\<close>:
  \<^verbatim>\<open>activeItem.active && activeItem.nextDueDate <= today\<close>.
\<close>

definition isDue :: "'n Ambient \<Rightarrow> 'n RecurringTransaction \<Rightarrow> bool" where
  "isDue amb activeItem =
     (rt_active activeItem \<and> rt_nextDueDate activeItem \<le> clockToday amb)"

text \<open>
  The object literal \<open>newTx\<close>; \<open>k\<close> counts the calls of \<^verbatim>\<open>generateId()\<close> and
  \<^verbatim>\<open>Date.now()\<close> made before it.
\<close>

definition newTx :: "'n Ambient \<Rightarrow> nat \<Rightarrow> 'n RecurringTransaction \<Rightarrow> 'n Transaction" where
  "newTx amb k activeItem =
     \<lparr> tx_id = generateId amb k,
       tx_date = rt_nextDueDate activeItem,
       tx_payee = Some (rt_payee activeItem),
       tx_description = Some (rt_description activeItem @ '' (Recurring)''),
       tx_splits = rt_splits activeItem,
       tx_createdAt = dateNow amb k \<rparr>"

text \<open>
  The two assignments \<^verbatim>\<open>activeItem.lastRun = activeItem.nextDueDate\<close> and
  \<^verbatim>\<open>activeItem.nextDueDate = calculateNextDueDate(...)\<close>, given the value of the
  call.
\<close>

definition advance :: "'n RecurringTransaction \<Rightarrow> string \<Rightarrow> 'n RecurringTransaction" where
  "advance activeItem next =
     activeItem \<lparr> rt_lastRun := Some (rt_nextDueDate activeItem), rt_nextDueDate := next \<rparr>"

text \<open>
  The body of the \<^verbatim>\<open>map\<close> callback for one rule. \<open>newTransactions\<close> is the array
  the callback pushes to; its length is the number of transactions emitted so far and
  so the number of \<^verbatim>\<open>generateId()\<close> and \<^verbatim>\<open>Date.now()\<close> calls made so far. The result
  is the array after the callback and the rule the callback returns; \<open>None\<close> when
  \<^verbatim>\<open>calculateNextDueDate\<close> throws.
\<close>

definition processItem ::
  "'n Ambient \<Rightarrow> 'n Transaction list \<Rightarrow> 'n RecurringTransaction
     \<Rightarrow> ('n Transaction list \<times> 'n RecurringTransaction) option" where
  "processItem amb newTransactions activeItem =
     (if isDue amb activeItem
      then
        (case calculateNextDueDate (dateHost amb) (rt_nextDueDate activeItem)
                (rt_frequency activeItem) of
           None \<Rightarrow> None
         | Some next \<Rightarrow>
             Some (newTransactions @ [newTx amb (length newTransactions) activeItem],
                   advance activeItem next))
      else Some (newTransactions, activeItem))"

fun mapItems ::
  "'n Ambient \<Rightarrow> 'n Transaction list \<Rightarrow> 'n RecurringTransaction list
     \<Rightarrow> ('n Transaction list \<times> 'n RecurringTransaction list) option" where
  "mapItems amb newTransactions [] = Some (newTransactions, [])"
| "mapItems amb newTransactions (item # rest) =
     (case processItem amb newTransactions item of
        None \<Rightarrow> None
      | Some (newTransactions', activeItem) \<Rightarrow>
          (case mapItems amb newTransactions' rest of
             None \<Rightarrow> None
           | Some (newTransactions'', updated) \<Rightarrow>
               Some (newTransactions'', activeItem # updated)))"

text \<open>
  The result is \<^verbatim>\<open>{ newTransactions, updatedRecurring }\<close>, here a pair.
  \<open>currentTransactions\<close> is a parameter the body never reads.
\<close>

definition processDueRecurringTransactions ::
  "'n Ambient \<Rightarrow> 'n RecurringTransaction list \<Rightarrow> 'n Transaction list
     \<Rightarrow> ('n Transaction list \<times> 'n RecurringTransaction list) option" where
  "processDueRecurringTransactions amb recurringList currentTransactions =
     mapItems amb [] recurringList"

text \<open>
  For the statements. \<open>movedOn host r\<close> is the rule \<open>r\<close> as the callback returns it
  when it finds it due. \<open>advanced amb r u\<close>: the rule \<open>u\<close> is what the callback
  returns for the rule \<open>r\<close>. \<open>stillDue amb r\<close>: the rule \<open>r\<close> is due and the date
  that \<^verbatim>\<open>calculateNextDueDate\<close> moves it to is not after today either.
\<close>

definition movedOn :: "Host \<Rightarrow> 'n RecurringTransaction \<Rightarrow> 'n RecurringTransaction" where
  "movedOn host r =
     (case calculateNextDueDate host (rt_nextDueDate r) (rt_frequency r) of
        None \<Rightarrow> r
      | Some next \<Rightarrow> advance r next)"

definition advanced :: "'n Ambient \<Rightarrow> 'n RecurringTransaction \<Rightarrow> 'n RecurringTransaction \<Rightarrow> bool" where
  "advanced amb r u =
     (if isDue amb r
      then (\<exists>next. calculateNextDueDate (dateHost amb) (rt_nextDueDate r) (rt_frequency r) = Some next
                   \<and> u = advance r next)
      else u = r)"

definition stillDue :: "'n Ambient \<Rightarrow> 'n RecurringTransaction \<Rightarrow> bool" where
  "stillDue amb r =
     (isDue amb r
      \<and> (\<exists>next. calculateNextDueDate (dateHost amb) (rt_nextDueDate r) (rt_frequency r) = Some next
                  \<and> next \<le> clockToday amb))"

subsection \<open>The account tree\<close>

text \<open>
  \<^verbatim>\<open>current.parentId\<close> as a condition: \<^verbatim>\<open>null\<close> and the empty string are falsy.
\<close>

definition truthy :: "string option \<Rightarrow> bool" where
  "truthy s = (s \<noteq> None \<and> s \<noteq> Some [])"

text \<open>
  The \<^verbatim>\<open>while\<close> loop of \<^verbatim>\<open>getAccountPath\<close>, on its three variables \<open>path\<close>,
  \<open>current\<close> and \<open>depth\<close>. \<^verbatim>\<open>allAccounts.find\<close> is \<open>find\<close>, and its
  \<^verbatim>\<open>undefined\<close> is \<open>None\<close>, the \<^verbatim>\<open>break\<close>. The loop returns its last state: the
  path and the number of times the body ran to its end.
\<close>

function getAccountPath_loop ::
  "'n Account list \<Rightarrow> string \<Rightarrow> 'n Account \<Rightarrow> nat \<Rightarrow> string \<times> nat" where
  "getAccountPath_loop allAccounts path current depth =
     (if truthy (acc_parentId current) \<and> depth < 20
      then (case find (\<lambda>a. Some (acc_id a) = acc_parentId current) allAccounts of
              Some parent \<Rightarrow>
                getAccountPath_loop allAccounts (acc_name parent @ '':'' @ path) parent (depth + 1)
            | None \<Rightarrow> (path, depth))
      else (path, depth))"
  by pat_completeness auto
termination
  by (relation "measure (\<lambda>(allAccounts, path, current, depth). 20 - depth)") auto

declare getAccountPath_loop.simps [simp del]

definition getAccountPath :: "'n Account \<Rightarrow> 'n Account list \<Rightarrow> string" where
  "getAccountPath account allAccounts =
     fst (getAccountPath_loop allAccounts (acc_name account) account 0)"

text \<open>
  For the statement about \<open>getAccountPath\<close>: the ancestors of an account, nearest
  first, found by following \<open>parentId\<close> through the list for at most \<open>n\<close> steps, and
  names joined by the separator.
\<close>

fun ancestorsUpTo :: "nat \<Rightarrow> 'n Account list \<Rightarrow> 'n Account \<Rightarrow> 'n Account list" where
  "ancestorsUpTo 0 allAccounts current = []"
| "ancestorsUpTo (Suc n) allAccounts current =
     (if truthy (acc_parentId current)
      then (case find (\<lambda>a. Some (acc_id a) = acc_parentId current) allAccounts of
              Some parent \<Rightarrow> parent # ancestorsUpTo n allAccounts parent
            | None \<Rightarrow> [])
      else [])"

fun joinNames :: "string list \<Rightarrow> string" where
  "joinNames [] = []"
| "joinNames [x] = x"
| "joinNames (x # y # ys) = x @ '':'' @ joinNames (y # ys)"

text \<open>
  The \<^verbatim>\<open>while\<close> loop of \<^verbatim>\<open>getDescendantAccountIds\<close>, on \<open>stack\<close> and
  \<open>result\<close>. The stack is an array: \<^verbatim>\<open>pop\<close> takes its last element and
  \<^verbatim>\<open>push\<close> appends. Nothing bounds the loop, so it is a partial function: \<open>None\<close>
  when it runs forever.
\<close>

partial_function (option) getDescendantAccountIds_loop ::
  "'n Account list \<Rightarrow> string list \<Rightarrow> string set \<Rightarrow> string set option" where
  "getDescendantAccountIds_loop allAccounts stack result =
     (if stack = [] then Some result
      else
        (let currentId = last stack;
             children = filter (\<lambda>a. acc_parentId a = Some currentId) allAccounts
         in getDescendantAccountIds_loop allAccounts
              (butlast stack @ map acc_id children) (insert currentId result)))"

declare getDescendantAccountIds_loop.simps [code]

definition getDescendantAccountIds :: "string \<Rightarrow> 'n Account list \<Rightarrow> string set option" where
  "getDescendantAccountIds rootId allAccounts =
     getDescendantAccountIds_loop allAccounts [rootId] {}"

text \<open>
  The \<open>parentId\<close> relation of an account list: the pairs of a child's id and the
  \<open>parentId\<close> it names.
\<close>

definition parentEdges :: "'n Account list \<Rightarrow> (string \<times> string) list" where
  "parentEdges allAccounts =
     concat (map (\<lambda>a. case acc_parentId a of None \<Rightarrow> [] | Some p \<Rightarrow> [(acc_id a, p)])
                 allAccounts)"

text \<open>
  For the statements: the ids from which \<open>x\<close> is reached by following \<open>parentId\<close>
  any number of times.
\<close>

definition descendants :: "'n Account list \<Rightarrow> string \<Rightarrow> string set" where
  "descendants allAccounts x = {y. (y, x) \<in> (set (parentEdges allAccounts))\<^sup>*}"

subsection \<open>Balances\<close>

text \<open>
  \<^verbatim>\<open>balance += split.amount\<close> and \<^verbatim>\<open>total += ...\<close> are the addition of the host's
  numbers, of which nothing is assumed: the sums are taken in the order in which the
  loops take them, from \<^verbatim>\<open>let balance = 0\<close> on.
\<close>

definition calculateAccountBalance :: "string \<Rightarrow> ('n::{plus,zero}) Transaction list \<Rightarrow> 'n" where
  "calculateAccountBalance accId transactions =
     foldl (\<lambda>balance tx.
              foldl (\<lambda>balance split.
                       if accountId split = accId then balance + amount split else balance)
                    balance (tx_splits tx))
           0 transactions"

text \<open>
  \<^verbatim>\<open>calculateTreeBalance\<close> calls itself for every child, and nothing in it bounds the
  depth of the calls. The first argument is the number of calls the host's stack still
  has room for; a call that finds none left throws (\<^verbatim>\<open>RangeError\<close>), which is
  \<open>None\<close>, and the exception of a child ends the parent's loop. \<open>childrenOf\<close> is
  the array \<^verbatim>\<open>children\<close>.
\<close>

definition childrenOf :: "'n Account \<Rightarrow> 'n Account list \<Rightarrow> 'n Account list" where
  "childrenOf account allAccounts =
     filter (\<lambda>a. acc_parentId a = Some (acc_id account)) allAccounts"

fun calculateTreeBalance ::
  "nat \<Rightarrow> ('n::{plus,zero}) Account \<Rightarrow> 'n Account list \<Rightarrow> 'n Transaction list \<Rightarrow> 'n option" where
  "calculateTreeBalance 0 account allAccounts transactions = None"
| "calculateTreeBalance (Suc room) account allAccounts transactions =
     foldl (\<lambda>total child.
              case total of
                None \<Rightarrow> None
              | Some t \<Rightarrow>
                  (case calculateTreeBalance room child allAccounts transactions of
                     None \<Rightarrow> None
                   | Some b \<Rightarrow> Some (t + b)))
           (Some (calculateAccountBalance (acc_id account) transactions))
           (childrenOf account allAccounts)"

declare calculateTreeBalance.simps(2) [simp del]

text \<open>
  The object literal of \<^verbatim>\<open>getFlattenedBalances\<close>; \<^verbatim>\<open>acc.budget || 0\<close> is 0 for
  a missing budget.
\<close>

definition flattened :: "('n::{plus,zero}) Account \<Rightarrow> 'n \<Rightarrow> 'n FlattenedAccountBalance" where
  "flattened acc balance =
     \<lparr> fb_id = acc_id acc,
       fb_name = acc_name acc,
       fb_type = acc_type acc,
       fb_balance = balance,
       fb_budget = (case acc_budget acc of None \<Rightarrow> 0 | Some b \<Rightarrow> b) \<rparr>"

text \<open>
  \<^verbatim>\<open>accounts.map(acc => ...)\<close>, the list being mapped apart from the list the
  callback searches for children. An exception in one callback ends the whole call.
\<close>

fun getFlattenedBalances_map ::
  "nat \<Rightarrow> ('n::{plus,zero}) Account list \<Rightarrow> 'n Account list \<Rightarrow> 'n Transaction list
     \<Rightarrow> 'n FlattenedAccountBalance list option" where
  "getFlattenedBalances_map room [] accounts transactions = Some []"
| "getFlattenedBalances_map room (acc # rest) accounts transactions =
     (case calculateTreeBalance room acc accounts transactions of
        None \<Rightarrow> None
      | Some balance \<Rightarrow>
          (case getFlattenedBalances_map room rest accounts transactions of
             None \<Rightarrow> None
           | Some entries \<Rightarrow> Some (flattened acc balance # entries)))"

text \<open>
  For the statements: the entries of the result that stand at the positions of the
  direct children of \<open>account\<close>.
\<close>

definition childEntries ::
  "'n Account \<Rightarrow> 'n Account list \<Rightarrow> 'n FlattenedAccountBalance list
     \<Rightarrow> 'n FlattenedAccountBalance list" where
  "childEntries account accounts entries =
     map snd (filter (\<lambda>(a, e). acc_parentId a = Some (acc_id account)) (zip accounts entries))"

definition getFlattenedBalances ::
  "nat \<Rightarrow> ('n::{plus,zero}) Account list \<Rightarrow> 'n Transaction list
     \<Rightarrow> 'n FlattenedAccountBalance list option" where
  "getFlattenedBalances room accounts transactions =
     getFlattenedBalances_map room accounts accounts transactions"

subsection \<open>Floating-point numbers\<close>

text \<open>
  The host's numbers are the binary floating-point numbers of IEEE 754 with 53
  significant bits. \<open>Binary64 m e\<close> is the number \<open>m * 2 ^ e\<close>, with \<open>m\<close> odd or
  the number zero, so that every number is written in one way. Their sum is the exact
  sum rounded to 53 significant bits, to the nearest such number and to the one with an
  even last bit when two are equally near. (The numbers here have any exponent: what
  is beyond the largest or below the smallest exponent of the host, and \<^verbatim>\<open>NaN\<close>, is
  left out.)
\<close>

datatype binary64 = Binary64 int int

function bitLength :: "int \<Rightarrow> nat" where
  "bitLength m = (if m \<le> 0 then 0 else Suc (bitLength (m div 2)))"
  by pat_completeness auto
termination
  by (relation "measure nat") auto

declare bitLength.simps [simp del]

function normal :: "int \<Rightarrow> int \<Rightarrow> binary64" where
  "normal m e =
     (if m = 0 then Binary64 0 0
      else if m mod 2 = 0 then normal (m div 2) (e + 1)
      else Binary64 m e)"
  by pat_completeness auto
termination
  by (relation "measure (\<lambda>(m, e). nat \<bar>m\<bar>)") auto

declare normal.simps [simp del]

definition round53 :: "int \<Rightarrow> int \<Rightarrow> binary64" where
  "round53 m e =
     (let n = bitLength \<bar>m\<bar>
      in if n \<le> 53 then normal m e
         else
           (let s = n - 53;
                q = \<bar>m\<bar> div 2 ^ s;
                r = \<bar>m\<bar> mod 2 ^ s;
                h = 2 ^ (s - 1);
                q' = (if h < r \<or> (r = h \<and> q mod 2 = 1) then q + 1 else q)
            in normal (sgn m * q') (e + int s)))"

instantiation binary64 :: "{plus, zero}"
begin

definition zero_binary64 :: binary64 where
  "zero_binary64 = Binary64 0 0"

definition plus_binary64 :: "binary64 \<Rightarrow> binary64 \<Rightarrow> binary64" where
  "plus_binary64 x y =
     (case (x, y) of
        (Binary64 m1 e1, Binary64 m2 e2) \<Rightarrow>
          (let e = min e1 e2
           in round53 (m1 * 2 ^ nat (e1 - e) + m2 * 2 ^ nat (e2 - e)) e))"

instance ..

end

subsection \<open>The transaction codec: strings\<close>

definition dquote :: char where
  "dquote = CHR 0x22"

definition comma :: char where
  "comma = CHR '',''"

definition LF :: char where
  "LF = CHR 0x0A"

definition CR :: char where
  "CR = CHR 0x0D"

text \<open>\<^verbatim>\<open>s.replace(/"/g, '""')\<close>: every quote character is written twice.\<close>

definition doubleQuotes :: "string \<Rightarrow> string" where
  "doubleQuotes s = concat (map (\<lambda>c. if c = dquote then [dquote, dquote] else [c]) s)"

text \<open>
  \<^verbatim>\<open>s.replace(/""/g, '"')\<close>: from the left, every two adjacent quote characters
  become one.
\<close>

fun undoubleQuotes :: "string \<Rightarrow> string" where
  "undoubleQuotes (a # b # cs) =
     (if a = dquote \<and> b = dquote then dquote # undoubleQuotes cs
      else a # undoubleQuotes (b # cs))"
| "undoubleQuotes cs = cs"

text \<open>\<^verbatim>\<open>rows.join('\n')\<close>.\<close>

fun joinLines :: "string list \<Rightarrow> string" where
  "joinLines [] = []"
| "joinLines [x] = x"
| "joinLines (x # y # ys) = x @ [LF] @ joinLines (y # ys)"

text \<open>
  \<^verbatim>\<open>csvContent.split(/\r?\n/)\<close>: a line ends at a line feed, and a carriage return
  just before the line feed goes with it.
\<close>

fun splitLines :: "string \<Rightarrow> string list" where
  "splitLines [] = [[]]"
| "splitLines [c] = (if c = LF then [[], []] else [[c]])"
| "splitLines (c # d # cs) =
     (if c = LF then [] # splitLines (d # cs)
      else if c = CR \<and> d = LF then [] # splitLines cs
      else (case splitLines (d # cs) of
              l # ls \<Rightarrow> (c # l) # ls
            | [] \<Rightarrow> [[c]]))"

text \<open>
  \<^verbatim>\<open>line.trim()\<close> removes white space and line terminators at both ends. Among the
  code units 0..255 these are tab, line feed, vertical tab, form feed, carriage return,
  space and the no-break space.
\<close>

definition isWhiteSpace :: "char \<Rightarrow> bool" where
  "isWhiteSpace c =
     (c \<in> set [CHR 0x09, CHR 0x0A, CHR 0x0B, CHR 0x0C, CHR 0x0D, CHR 0x20, CHR 0xA0])"

definition trim :: "string \<Rightarrow> string" where
  "trim s = rev (dropWhile isWhiteSpace (rev (dropWhile isWhiteSpace s)))"

subsection \<open>The transaction codec: writing\<close>

text \<open>
  The template literal of one row. \<open>numberToString\<close> is the host's conversion of a
  number in a template literal; \<^verbatim>\<open>tx.payee || ''\<close> is the empty string for a missing
  payee.
\<close>

definition serializeRow :: "('n \<Rightarrow> string) \<Rightarrow> 'n Transaction \<Rightarrow> 'n Split \<Rightarrow> string" where
  "serializeRow numberToString tx split =
     (let cleanPayee = doubleQuotes (case tx_payee tx of None \<Rightarrow> [] | Some p \<Rightarrow> p);
          cleanDesc = doubleQuotes (case tx_description tx of None \<Rightarrow> [] | Some d \<Rightarrow> d)
      in tx_id tx @ [comma] @ tx_date tx @ [comma] @ numberToString (tx_createdAt tx)
         @ [comma] @ [dquote] @ cleanPayee @ [dquote]
         @ [comma] @ [dquote] @ cleanDesc @ [dquote]
         @ [comma] @ accountId split @ [comma] @ numberToString (amount split))"

definition csvHeader :: string where
  "csvHeader = ''Transaction ID,Date,Created At,Payee,Description,Account ID,Amount'' @ [LF]"

definition serializeTransactionsToCSV :: "('n \<Rightarrow> string) \<Rightarrow> 'n Transaction list \<Rightarrow> string" where
  "serializeTransactionsToCSV numberToString transactions =
     csvHeader
     @ joinLines (concat (map (\<lambda>tx. map (serializeRow numberToString tx) (tx_splits tx))
                              transactions))"

subsection \<open>The transaction codec: the regular expression\<close>

text \<open>
  \<^verbatim>\<open>/(?:^|,)(?:"([^"]*(?:""[^"]*)*)"|([^",]*))/g\<close>, matched by \<^verbatim>\<open>regex.exec(line)\<close>
  in a loop. The expression is made anew for every line, so the first call starts at
  \<open>lastIndex = 0\<close>; every call starts at the \<open>lastIndex\<close> the call before left,
  the end of its match.

  \<open>quotedBody\<close> is the first alternative after its opening quote: the text matched by
  \<^verbatim>\<open>[^"]*(?:""[^"]*)*\<close> when a closing quote follows it, \<open>None\<close> when the alternative
  fails. At a quote that another quote follows the repetition is tried first, and when
  the rest fails that way the first of the two quotes closes the field.
\<close>

fun quotedBody :: "string \<Rightarrow> string option" where
  "quotedBody [] = None"
| "quotedBody (c # cs) =
     (if c \<noteq> dquote then map_option ((#) c) (quotedBody cs)
      else (case cs of
              [] \<Rightarrow> Some []
            | d # cs' \<Rightarrow>
                (if d = dquote
                 then (case quotedBody cs' of
                         Some body \<Rightarrow> Some (dquote # dquote # body)
                       | None \<Rightarrow> Some [])
                 else Some [])))"

text \<open>
  The second group of the expression at the text \<open>t\<close>: the number of characters it
  matches and the value the loop pushes,
  \<^verbatim>\<open>match[1] !== undefined ? match[1].replace(/""/g, '"') : match[2]\<close>. The second
  alternative \<^verbatim>\<open>[^",]*\<close> matches every text, possibly no character of it.
\<close>

definition fieldMatch :: "string \<Rightarrow> nat \<times> string" where
  "fieldMatch t =
     (case (case t of [] \<Rightarrow> None | c # cs \<Rightarrow> if c = dquote then quotedBody cs else None) of
        Some body \<Rightarrow> (length body + 2, undoubleQuotes body)
      | None \<Rightarrow>
          (let bare = takeWhile (\<lambda>c. c \<noteq> dquote \<and> c \<noteq> comma) t
           in (length bare, bare)))"

text \<open>
  One call of \<^verbatim>\<open>regex.exec(line)\<close> with the given \<open>lastIndex\<close>: \<open>None\<close> for
  \<^verbatim>\<open>null\<close>, else the new \<open>lastIndex\<close> and the value. At index 0 the first group
  matches by \<^verbatim>\<open>^\<close>; at a later index it needs a comma, which is looked for from
  \<open>lastIndex\<close> on.
\<close>

definition regexExec :: "string \<Rightarrow> nat \<Rightarrow> (nat \<times> string) option" where
  "regexExec line lastIndex =
     (if lastIndex = 0
      then (case fieldMatch line of (n, val) \<Rightarrow> Some (n, val))
      else (case dropWhile (\<lambda>c. c \<noteq> comma) (drop lastIndex line) of
              [] \<Rightarrow> None
            | c # t \<Rightarrow> (case fieldMatch t of (n, val) \<Rightarrow> Some (length line - length t + n, val))))"

text \<open>
  \<^verbatim>\<open>while ((match = regex.exec(line)) !== null) { ...; matches.push(val); }\<close>. A
  match of no character at index 0 leaves \<open>lastIndex\<close> at 0, and the loop does not
  end, pushing the same value until the host has no memory left: the function is
  partial, \<open>None\<close> when the loop does not end.
\<close>

partial_function (option) execLoop :: "string \<Rightarrow> nat \<Rightarrow> string list \<Rightarrow> string list option" where
  "execLoop line lastIndex matches =
     (case regexExec line lastIndex of
        None \<Rightarrow> Some matches
      | Some (e, val) \<Rightarrow> execLoop line e (matches @ [val]))"

declare execLoop.simps [code]

subsection \<open>The transaction codec: reading\<close>

text \<open>
  The scanner \<^verbatim>\<open>for (let char of line)\<close> on its variables \<open>row\<close>, \<open>inQuote\<close> and
  \<open>currentVal\<close>, with the \<^verbatim>\<open>row.push(currentVal)\<close> that follows the loop.
\<close>

fun scanRow :: "string list \<Rightarrow> bool \<Rightarrow> string \<Rightarrow> string \<Rightarrow> string list" where
  "scanRow row inQuote currentVal [] = row @ [currentVal]"
| "scanRow row inQuote currentVal (char # rest) =
     (if char = dquote then scanRow row (\<not> inQuote) currentVal rest
      else if char = comma \<and> \<not> inQuote then scanRow (row @ [currentVal]) inQuote [] rest
      else scanRow row inQuote (currentVal @ [char]) rest)"

text \<open>The callback of \<^verbatim>\<open>row.map\<close>; \<^verbatim>\<open>c.slice(1, -1)\<close> drops both ends.\<close>

definition cleanCell :: "string \<Rightarrow> string" where
  "cleanCell c =
     (if c \<noteq> [] \<and> hd c = dquote \<and> last c = dquote
      then undoubleQuotes (butlast (tl c))
      else c)"

text \<open>An element of an array, \<^verbatim>\<open>undefined\<close> past its end.\<close>

definition element :: "'a list \<Rightarrow> nat \<Rightarrow> 'a option" where
  "element xs k = (if k < length xs then Some (xs ! k) else None)"

text \<open>
  What a call can do other than return a list of transactions: never return (the
  loop of \<open>execLoop\<close> does not end), or return objects in which a field of type
  \<^verbatim>\<open>string\<close> (\<open>date\<close>, \<open>accountId\<close>) is \<^verbatim>\<open>undefined\<close>, which the record
  types here cannot hold.
\<close>

datatype failure = NeverReturns | UndefinedField

text \<open>
  \<open>txMap\<close> is a \<^verbatim>\<open>Map\<close> from id to transaction, which keeps the order in which
  the ids are first set: here the list of its values in that order.
  \<open>pushSplit\<close> is \<^verbatim>\<open>txMap.get(id)!.splits.push(split)\<close>.
\<close>

definition pushSplit :: "'n Transaction list \<Rightarrow> string \<Rightarrow> 'n Split \<Rightarrow> 'n Transaction list" where
  "pushSplit txMap id0 split =
     map (\<lambda>tx. if tx_id tx = id0 then tx \<lparr> tx_splits := tx_splits tx @ [split] \<rparr> else tx) txMap"

text \<open>
  The body of the \<^verbatim>\<open>for\<close> loop for one line. \<open>Number\<close> is the host's conversion,
  applied to a string or to \<^verbatim>\<open>undefined\<close>.
\<close>

definition parseLine ::
  "(string option \<Rightarrow> 'n) \<Rightarrow> 'n Transaction list \<Rightarrow> string \<Rightarrow> failure + 'n Transaction list" where
  "parseLine Number txMap rawLine =
     (let line = trim rawLine in
      if line = [] then Inr txMap
      else
        (case execLoop line 0 [] of
           None \<Rightarrow> Inl NeverReturns
         | Some matches \<Rightarrow>
             if length matches < 7 then Inr txMap
             else
               (let row = scanRow [] False [] line;
                    cleanRow = map cleanCell row
                in case (element cleanRow 0, element cleanRow 1, element cleanRow 5) of
                     (Some id0, Some date, Some accId) \<Rightarrow>
                       (let txMap' =
                              (if id0 \<in> set (map tx_id txMap) then txMap
                               else txMap @ [\<lparr> tx_id = id0,
                                                tx_date = date,
                                                tx_payee = element cleanRow 3,
                                                tx_description = element cleanRow 4,
                                                tx_splits = [],
                                                tx_createdAt = Number (element cleanRow 2) \<rparr>])
                        in Inr (pushSplit txMap' id0
                                  \<lparr> accountId = accId, amount = Number (element cleanRow 6) \<rparr>))
                   | _ \<Rightarrow> Inl UndefinedField)))"

text \<open>
  The \<^verbatim>\<open>for\<close> loop over the lines. A line that leaves an \<^verbatim>\<open>undefined\<close> field does
  not stop the loop; \<open>untyped\<close> remembers it.
\<close>

fun parseLines ::
  "(string option \<Rightarrow> 'n) \<Rightarrow> 'n Transaction list \<Rightarrow> bool \<Rightarrow> string list
     \<Rightarrow> failure + 'n Transaction list" where
  "parseLines Number txMap untyped [] = (if untyped then Inl UndefinedField else Inr txMap)"
| "parseLines Number txMap untyped (rawLine # rest) =
     (case parseLine Number txMap rawLine of
        Inl NeverReturns \<Rightarrow> Inl NeverReturns
      | Inl UndefinedField \<Rightarrow> parseLines Number txMap True rest
      | Inr txMap' \<Rightarrow> parseLines Number txMap' untyped rest)"

text \<open>
  \<^verbatim>\<open>sort((a, b) => b.createdAt - a.createdAt)\<close>: descending by \<open>createdAt\<close>, and
  stable, entries with the same \<open>createdAt\<close> keeping their order.
\<close>

definition sortByCreatedAtDesc :: "('n::linorder) Transaction list \<Rightarrow> 'n Transaction list" where
  "sortByCreatedAtDesc txs = rev (sort_key tx_createdAt (rev txs))"

text \<open>The loop starts at \<open>i = 1\<close>: the first line, the header, is not read.\<close>

definition parseTransactionsFromCSV ::
  "(string option \<Rightarrow> 'n::linorder) \<Rightarrow> string \<Rightarrow> failure + 'n Transaction list" where
  "parseTransactionsFromCSV Number csvContent =
     (case parseLines Number [] False (drop 1 (splitLines csvContent)) of
        Inl e \<Rightarrow> Inl e
      | Inr txMap \<Rightarrow> Inr (sortByCreatedAtDesc txMap))"

text \<open>
  For the statements: the fields of a line that holds no quote character, the texts
  between its commas.
\<close>

fun commaFields :: "string \<Rightarrow> string list" where
  "commaFields [] = [[]]"
| "commaFields (c # cs) =
     (if c = comma then [] # commaFields cs
      else (case commaFields cs of f # fs \<Rightarrow> (c # f) # fs | [] \<Rightarrow> [[c]]))"


text \<open>
  For the proofs: the matches the loop collects once \<open>lastIndex\<close> is past 0, as a
  function of the text from \<open>lastIndex\<close> on. From there every match begins with a
  comma, so every call moves on and the loop ends.
\<close>

function commaMatches :: "string \<Rightarrow> string list" where
  "commaMatches t =
     (case dropWhile (\<lambda>c. c \<noteq> comma) t of
        [] \<Rightarrow> []
      | c # t' \<Rightarrow> (case fieldMatch t' of (n, val) \<Rightarrow> val # commaMatches (drop n t')))"
  by pat_completeness auto
termination
proof (relation "measure length")
  show "wf (measure length)"
    by simp
next
  fix t t' :: string and c :: char and n :: nat
  assume "dropWhile (\<lambda>c. c \<noteq> comma) t = c # t'"
  moreover have "length (dropWhile (\<lambda>c. c \<noteq> comma) t) \<le> length t"
    by (rule length_dropWhile_le)
  ultimately show "(drop n t', t) \<in> measure length"
    by simp
qed

declare commaMatches.simps [simp del]

text \<open>
  For the statements about writing and reading back: the texts that can stand in a
  field written without quotes, the texts that can stand in a quoted field, and the
  transactions whose rows are made of such fields. The id is not empty and does not
  begin with white space, and there is a split.
\<close>

definition unquotedText :: "string \<Rightarrow> bool" where
  "unquotedText s = (comma \<notin> set s \<and> dquote \<notin> set s \<and> LF \<notin> set s \<and> CR \<notin> set s)"

definition quotedText :: "string \<Rightarrow> bool" where
  "quotedText s = (dquote \<notin> set s \<and> LF \<notin> set s \<and> CR \<notin> set s)"

definition payeeText :: "'n Transaction \<Rightarrow> string" where
  "payeeText tx = (case tx_payee tx of None \<Rightarrow> [] | Some p \<Rightarrow> p)"

definition descriptionText :: "'n Transaction \<Rightarrow> string" where
  "descriptionText tx = (case tx_description tx of None \<Rightarrow> [] | Some d \<Rightarrow> d)"

definition writable :: "'n Transaction \<Rightarrow> bool" where
  "writable tx =
     (tx_id tx \<noteq> [] \<and> \<not> isWhiteSpace (hd (tx_id tx)) \<and> unquotedText (tx_id tx)
      \<and> unquotedText (tx_date tx)
      \<and> quotedText (payeeText tx) \<and> quotedText (descriptionText tx)
      \<and> tx_splits tx \<noteq> [] \<and> list_all (\<lambda>split. unquotedText (accountId split)) (tx_splits tx))"

text \<open>
  What the host's conversions do on every number: the text of a number is not empty,
  holds no comma, quote or line break, does not end in white space, and \<^verbatim>\<open>Number\<close>
  reads it back.
\<close>

definition numberText :: "('n \<Rightarrow> string) \<Rightarrow> (string option \<Rightarrow> 'n) \<Rightarrow> 'n \<Rightarrow> bool" where
  "numberText numberToString Number x =
     (Number (Some (numberToString x)) = x
      \<and> numberToString x \<noteq> [] \<and> unquotedText (numberToString x)
      \<and> \<not> isWhiteSpace (last (numberToString x)))"

text \<open>
  A transaction as it is read back: a missing payee or description is the empty
  string.
\<close>

definition readBack :: "'n Transaction \<Rightarrow> 'n Transaction" where
  "readBack tx =
     tx \<lparr> tx_payee := Some (payeeText tx), tx_description := Some (descriptionText tx) \<rparr>"

text \<open>
  For the proofs: the text of a row in terms of its seven fields, and the texts
  without comma and quote.
\<close>

definition rowText :: "string \<Rightarrow> string \<Rightarrow> string \<Rightarrow> string \<Rightarrow> string \<Rightarrow> string \<Rightarrow> string \<Rightarrow> string" where
  "rowText a b c p d e g =
     a @ comma # b @ comma # c @ comma # dquote # p @ dquote # comma # dquote # d
       @ dquote # comma # e @ comma # g"

definition bare :: "string \<Rightarrow> bool" where
  "bare f = (comma \<notin> set f \<and> dquote \<notin> set f)"

subsection \<open>Example hosts\<close>

text \<open>
  A parser of date strings that reads the days of the calendar written
  \<^verbatim>\<open>YYYY-MM-DD\<close>, as midnight UTC, and nothing else. (The examples give it such
  strings and the empty string, which no host reads as a date.)
\<close>

definition isDigit :: "char \<Rightarrow> bool" where
  "isDigit c = (CHR ''0'' \<le> c \<and> c \<le> CHR ''9'')"

definition digitVal :: "char \<Rightarrow> int" where
  "digitVal c = int (of_char c) - 48"

fun digitsVal :: "int \<Rightarrow> string \<Rightarrow> int" where
  "digitsVal acc [] = acc"
| "digitsVal acc (c # cs) = digitsVal (10 * acc + digitVal c) cs"

definition parseIsoDay :: "string \<Rightarrow> timeValue option" where
  "parseIsoDay s =
     (case s of
        [y1, y2, y3, y4, h1, m1, m2, h2, d1, d2] \<Rightarrow>
          (let y = digitsVal 0 [y1, y2, y3, y4];
               m = digitsVal 0 [m1, m2];
               d = digitsVal 0 [d1, d2]
           in if list_all isDigit [y1, y2, y3, y4, m1, m2, d1, d2]
                 \<and> h1 = CHR ''-'' \<and> h2 = CHR ''-''
                 \<and> 1 \<le> m \<and> m \<le> 12 \<and> 1 \<le> d \<and> d \<le> daysInMonth y m
              then Some ((y, m, d), 0) else None)
      | _ \<Rightarrow> None)"

text \<open>
  A host in the time zone UTC.
\<close>

definition utcHost :: Host where
  "utcHost = \<lparr> dateParse = parseIsoDay, localTime = (\<lambda>t. t), utcTime = (\<lambda>t. t) \<rparr>"

text \<open>
  Hosts in other time zones. \<open>shiftMs\<close> moves a time value by less than a day, and
  \<open>zoneHost\<close> is the host of a zone that changes its offset from UTC once: it is
  \<open>before\<close> milliseconds ahead of UTC until the UTC time \<open>change\<close> and \<open>after\<close>
  milliseconds from then on. A local time is read with the offset \<open>after\<close> from the
  local time \<open>change + after\<close> on (a local time that the change skips is read with
  the offset \<open>before\<close>).
\<close>

definition prevDay :: "civilDate \<Rightarrow> civilDate" where
  "prevDay date =
     (case date of (y, m, d) \<Rightarrow>
        if 1 < d then (y, m, d - 1)
        else if 1 < m then (y, m - 1, daysInMonth y (m - 1))
        else (y - 1, 12, 31))"

definition shiftMs :: "int \<Rightarrow> timeValue \<Rightarrow> timeValue" where
  "shiftMs offset t =
     (case t of (date, ms) \<Rightarrow>
        if ms + offset < 0 then (prevDay date, ms + offset + 86400000)
        else if 86400000 \<le> ms + offset then (nextDay date, ms + offset - 86400000)
        else (date, ms + offset))"

definition timeBefore :: "timeValue \<Rightarrow> timeValue \<Rightarrow> bool" where
  "timeBefore s t =
     (case (s, t) of ((date, ms), (date', ms')) \<Rightarrow>
        dayKey date < dayKey date' \<or> (dayKey date = dayKey date' \<and> ms < ms'))"

definition zoneHost :: "int \<Rightarrow> timeValue \<Rightarrow> int \<Rightarrow> Host" where
  "zoneHost before change after =
     \<lparr> dateParse = parseIsoDay,
       localTime = (\<lambda>t. shiftMs (if timeBefore t change then before else after) t),
       utcTime = (\<lambda>t. shiftMs (if timeBefore t (shiftMs after change) then - before else - after) t) \<rparr>"

text \<open>
  Berlin in the spring of 2024: one hour ahead of UTC until 2024-03-31T01:00Z, two
  hours from then on. New York in the spring of 2024: five hours behind UTC until
  2024-03-10T07:00Z, four hours from then on.
\<close>

definition berlinHost :: Host where
  "berlinHost = zoneHost 3600000 ((2024, 3, 31), 3600000) 7200000"

definition newYorkHost :: Host where
  "newYorkHost = zoneHost (- 18000000) ((2024, 3, 10), 25200000) (- 14400000)"

subsection \<open>Example data\<close>

text \<open>
  The reads of a call on 2024-03-15, on a host in UTC.
\<close>

definition exampleAmbient :: "int Ambient" where
  "exampleAmbient =
     \<lparr> clockToday = ''2024-03-15'',
       dateNow = (\<lambda>k. 1710500000000 + int k),
       generateId = (\<lambda>k. ''id'' @ padDigits 7 (int k)),
       dateHost = utcHost \<rparr>"

definition exampleRent :: "int RecurringTransaction" where
  "exampleRent =
     \<lparr> rt_id = ''r1'', rt_frequency = monthly, rt_nextDueDate = ''2024-01-01'',
       rt_payee = ''Landlord'', rt_description = ''Rent'',
       rt_splits = [\<lparr> accountId = ''acc_rent'', amount = 1200 \<rparr>,
                    \<lparr> accountId = ''acc_bank'', amount = - 1200 \<rparr>],
       rt_lastRun = None, rt_active = True \<rparr>"

definition exampleGym :: "int RecurringTransaction" where
  "exampleGym =
     \<lparr> rt_id = ''r2'', rt_frequency = weekly, rt_nextDueDate = ''2023-11-06'',
       rt_payee = ''Gym'', rt_description = ''Membership'',
       rt_splits = [\<lparr> accountId = ''acc_gym'', amount = 15 \<rparr>,
                    \<lparr> accountId = ''acc_bank'', amount = - 15 \<rparr>],
       rt_lastRun = Some ''2023-10-30'', rt_active = False \<rparr>"

text \<open>
  Two more rules that are due on 2024-03-15, a daily and a monthly one, and a rule
  whose due date is the empty string. A transaction that is in the ledger already, and
  the reads of a call in which the random generator returns the id of that transaction
  every time.
\<close>

definition exampleCoffee :: "int RecurringTransaction" where
  "exampleCoffee =
     \<lparr> rt_id = ''r3'', rt_frequency = daily, rt_nextDueDate = ''2024-03-14'',
       rt_payee = ''Cafe'', rt_description = ''Coffee'',
       rt_splits = [\<lparr> accountId = ''acc_food'', amount = 3 \<rparr>,
                    \<lparr> accountId = ''acc_bank'', amount = - 3 \<rparr>],
       rt_lastRun = Some ''2024-03-13'', rt_active = True \<rparr>"

definition exampleLease :: "int RecurringTransaction" where
  "exampleLease =
     \<lparr> rt_id = ''r4'', rt_frequency = monthly, rt_nextDueDate = ''2024-03-01'',
       rt_payee = ''Garage'', rt_description = ''Lease'',
       rt_splits = [\<lparr> accountId = ''acc_car'', amount = 80 \<rparr>,
                    \<lparr> accountId = ''acc_bank'', amount = - 80 \<rparr>],
       rt_lastRun = Some ''2024-02-01'', rt_active = True \<rparr>"

definition exampleUndated :: "int RecurringTransaction" where
  "exampleUndated =
     \<lparr> rt_id = ''r5'', rt_frequency = weekly, rt_nextDueDate = [],
       rt_payee = ''Market'', rt_description = ''Vegetables'',
       rt_splits = [\<lparr> accountId = ''acc_food'', amount = 20 \<rparr>,
                    \<lparr> accountId = ''acc_bank'', amount = - 20 \<rparr>],
       rt_lastRun = None, rt_active = True \<rparr>"

definition txOld :: "int Transaction" where
  "txOld = \<lparr> tx_id = ''k3x9q2m7p'', tx_date = ''2024-03-02'', tx_payee = Some ''Bookshop'',
             tx_description = Some ''Atlas'',
             tx_splits = [\<lparr> accountId = ''acc_books'', amount = 40 \<rparr>,
                          \<lparr> accountId = ''acc_bank'', amount = - 40 \<rparr>],
             tx_createdAt = 1709380000000 \<rparr>"

definition repeatingAmbient :: "int Ambient" where
  "repeatingAmbient = exampleAmbient \<lparr> generateId := (\<lambda>k. ''k3x9q2m7p'') \<rparr>"

text \<open>
  The last day of March 2024, a host in Berlin, and the daily rule that is due on that
  day.
\<close>

definition exampleBackup :: "int RecurringTransaction" where
  "exampleBackup =
     \<lparr> rt_id = ''r6'', rt_frequency = daily, rt_nextDueDate = ''2024-03-31'',
       rt_payee = ''Cloud'', rt_description = ''Backup'',
       rt_splits = [\<lparr> accountId = ''acc_it'', amount = 1 \<rparr>,
                    \<lparr> accountId = ''acc_bank'', amount = - 1 \<rparr>],
       rt_lastRun = Some ''2024-03-30'', rt_active = True \<rparr>"

definition berlinAmbient :: "int Ambient" where
  "berlinAmbient = exampleAmbient \<lparr> clockToday := ''2024-03-31'', dateHost := berlinHost \<rparr>"


text \<open>
  The scenario of the specification: an account \<open>A\<close> with a child \<open>B\<close> and one
  transaction with a single split on \<open>B\<close>. And an account that names itself as its
  parent.
\<close>

definition accountA :: "int Account" where
  "accountA = \<lparr> acc_id = ''A'', acc_parentId = None, acc_name = ''Assets'',
                acc_type = ASSET, acc_budget = None \<rparr>"

definition accountB :: "int Account" where
  "accountB = \<lparr> acc_id = ''B'', acc_parentId = Some ''A'', acc_name = ''Bank'',
                acc_type = ASSET, acc_budget = Some 50 \<rparr>"

definition depositB :: "int Transaction" where
  "depositB = \<lparr> tx_id = ''t1'', tx_date = ''2024-01-05'', tx_payee = None,
                tx_description = Some ''Opening'',
                tx_splits = [\<lparr> accountId = ''B'', amount = 100 \<rparr>],
                tx_createdAt = 1704412800000 \<rparr>"

definition accountLoop :: "int Account" where
  "accountLoop = \<lparr> acc_id = ''L'', acc_parentId = Some ''L'', acc_name = ''Loop'',
                   acc_type = EXPENSE, acc_budget = None \<rparr>"

text \<open>
  Amounts that are decimal fractions: the floating-point numbers nearest to 0.1, 0.2
  and 0.3, which the host writes \<^verbatim>\<open>0.1\<close>, \<^verbatim>\<open>0.2\<close> and \<^verbatim>\<open>0.3\<close>, and the two it
  writes \<^verbatim>\<open>0.6\<close> and \<^verbatim>\<open>0.6000000000000001\<close>. An account with two children, and a
  transaction that books the three amounts on the three accounts.
\<close>

definition tenth :: binary64 where
  "tenth = Binary64 3602879701896397 (- 55)"

definition fifth :: binary64 where
  "fifth = Binary64 3602879701896397 (- 54)"

definition threeTenths :: binary64 where
  "threeTenths = Binary64 5404319552844595 (- 54)"

definition sixTenths :: binary64 where
  "sixTenths = Binary64 5404319552844595 (- 53)"

definition sixTenthsAndABit :: binary64 where
  "sixTenthsAndABit = Binary64 1351079888211149 (- 51)"

definition accountFood :: "binary64 Account" where
  "accountFood = \<lparr> acc_id = ''F'', acc_parentId = None, acc_name = ''Food'',
                   acc_type = EXPENSE, acc_budget = None \<rparr>"

definition accountBread :: "binary64 Account" where
  "accountBread = \<lparr> acc_id = ''F1'', acc_parentId = Some ''F'', acc_name = ''Bread'',
                    acc_type = EXPENSE, acc_budget = None \<rparr>"

definition accountMilk :: "binary64 Account" where
  "accountMilk = \<lparr> acc_id = ''F2'', acc_parentId = Some ''F'', acc_name = ''Milk'',
                   acc_type = EXPENSE, acc_budget = None \<rparr>"

definition txSmall :: "binary64 Transaction" where
  "txSmall = \<lparr> tx_id = ''t2'', tx_date = ''2024-01-06'', tx_payee = None,
               tx_description = Some ''Breakfast'',
               tx_splits = [\<lparr> accountId = ''F'', amount = tenth \<rparr>,
                            \<lparr> accountId = ''F1'', amount = fifth \<rparr>,
                            \<lparr> accountId = ''F2'', amount = threeTenths \<rparr>],
               tx_createdAt = Binary64 0 0 \<rparr>"

text \<open>
  The host's conversions on the numbers the examples use, the integers in decimal
  notation: \<open>decimal\<close> for a number in a template literal and \<open>fromDecimal\<close> for
  \<^verbatim>\<open>Number\<close>. (\<open>fromDecimal\<close> is \<^verbatim>\<open>Number\<close> on the decimal numerals only, and
  the examples give it no other string.)
\<close>

function digitsOf :: "int \<Rightarrow> string" where
  "digitsOf v =
     (if v < 10 then [digitChar v]
      else digitsOf (v div 10) @ [digitChar (v mod 10)])"
  by pat_completeness auto
termination
  by (relation "measure nat") auto

declare digitsOf.simps [simp del]

definition decimal :: "int \<Rightarrow> string" where
  "decimal v = (if v < 0 then CHR ''-'' # digitsOf (- v) else digitsOf v)"

definition fromDecimal :: "string option \<Rightarrow> int" where
  "fromDecimal s =
     (case s of
        None \<Rightarrow> 0
      | Some [] \<Rightarrow> 0
      | Some (c # cs) \<Rightarrow> if c = CHR ''-'' then - digitsVal 0 cs else digitsVal 0 (c # cs))"

text \<open>
  A transaction whose payee holds quote characters and whose description holds a
  comma, and one whose description holds a line feed.
\<close>

definition txCafe :: "int Transaction" where
  "txCafe =
     \<lparr> tx_id = ''t7'', tx_date = ''2024-02-03'',
       tx_payee = Some (''The '' @ [dquote] @ ''Corner'' @ [dquote] @ '' Cafe''),
       tx_description = Some ''Lunch, with tip'',
       tx_splits = [\<lparr> accountId = ''acc_food'', amount = 25 \<rparr>,
                    \<lparr> accountId = ''acc_bank'', amount = - 25 \<rparr>],
       tx_createdAt = 1706918400000 \<rparr>"

definition txNote :: "int Transaction" where
  "txNote =
     \<lparr> tx_id = ''t8'', tx_date = ''2024-02-04'',
       tx_payee = Some ''Bakery'',
       tx_description = Some (''bread'' @ [LF] @ ''and rolls''),
       tx_splits = [\<lparr> accountId = ''acc_food'', amount = 6 \<rparr>,
                    \<lparr> accountId = ''acc_bank'', amount = - 6 \<rparr>],
       tx_createdAt = 1707004800000 \<rparr>"

text \<open>
  The two rows of \<open>txCafe\<close>, and a row with only four fields.
\<close>

definition rowFood :: string where
  "rowFood = serializeRow decimal txCafe \<lparr> accountId = ''acc_food'', amount = 25 \<rparr>"

definition rowBank :: string where
  "rowBank = serializeRow decimal txCafe \<lparr> accountId = ''acc_bank'', amount = - 25 \<rparr>"

definition rowShort :: string where
  "rowShort = ''a,b,c,d''"

text \<open>
  A transaction without a payee, with a comma in its description.
\<close>

definition txLunch :: "int Transaction" where
  "txLunch =
     \<lparr> tx_id = ''t9'', tx_date = ''2024-02-05'',
       tx_payee = None,
       tx_description = Some ''Lunch, with tip'',
       tx_splits = [\<lparr> accountId = ''acc_food'', amount = 12 \<rparr>,
                    \<lparr> accountId = ''acc_bank'', amount = - 12 \<rparr>],
       tx_createdAt = 1707091200000 \<rparr>"

section \<open>The calendar: one period after a day\<close>

subsection \<open>Days that overflow their month\<close>

lemma daysInMonth_ge: "28 \<le> daysInMonth y m"
  by (simp add: daysInMonth_def)

lemma daysInMonth_le: "daysInMonth y m \<le> 31"
  by (simp add: daysInMonth_def)

lemma rollover_fits: "d \<le> daysInMonth y m \<Longrightarrow> rollover y m d = (y, m, d)"
  by (subst rollover.simps) simp

lemma rollover_carry:
  "daysInMonth y m < d \<Longrightarrow>
     rollover y m d = (if m = 12 then rollover (y + 1) 1 (d - daysInMonth y m)
                       else rollover y (m + 1) (d - daysInMonth y m))"
  by (subst rollover.simps) simp

lemma rollover_first: "rollover y m 1 = (y, m, 1)"
  using daysInMonth_ge [of y m] by (simp add: rollover_fits)

text \<open>
  A day of the month that is one more lands on the day after.
\<close>

lemma rollover_succ:
  "1 \<le> m \<Longrightarrow> m \<le> 12 \<Longrightarrow> 1 \<le> d \<Longrightarrow> rollover y m (d + 1) = nextDay (rollover y m d)"
proof (induction y m d rule: rollover.induct)
  case (1 y m d)
  let ?rest = "d - daysInMonth y m"
  show ?case
  proof (cases "daysInMonth y m < d")
    case over: True
    then have rest: "1 \<le> ?rest" by simp
    have shift: "d + 1 - daysInMonth y m = ?rest + 1" by simp
    show ?thesis
    proof (cases "m = 12")
      case True
      have ih: "rollover (y + 1) 1 (?rest + 1) = nextDay (rollover (y + 1) 1 ?rest)"
        by (rule "1.IH"(1) [OF over True]) (use rest in simp_all)
      have "rollover y m (d + 1) = rollover (y + 1) 1 (d + 1 - daysInMonth y m)"
        using over True by (subst rollover.simps) simp
      also have "\<dots> = rollover (y + 1) 1 (?rest + 1)"
        by (simp only: shift)
      also note ih
      also have "rollover (y + 1) 1 ?rest = rollover y m d"
        using over True by (subst (2) rollover.simps) simp
      finally show ?thesis .
    next
      case False
      have ih: "rollover y (m + 1) (?rest + 1) = nextDay (rollover y (m + 1) ?rest)"
        by (rule "1.IH"(2) [OF over False]) (use rest "1.prems" False in simp_all)
      have "rollover y m (d + 1) = rollover y (m + 1) (d + 1 - daysInMonth y m)"
        using over False by (subst rollover.simps) simp
      also have "\<dots> = rollover y (m + 1) (?rest + 1)"
        by (simp only: shift)
      also note ih
      also have "rollover y (m + 1) ?rest = rollover y m d"
        using over False by (subst (2) rollover.simps) simp
      finally show ?thesis .
    qed
  next
    case False
    then have fits: "rollover y m d = (y, m, d)"
      by (simp add: rollover_fits)
    show ?thesis
    proof (cases "d < daysInMonth y m")
      case True
      then show ?thesis
        by (simp add: fits rollover_fits nextDay_def)
    next
      case False
      with \<open>\<not> daysInMonth y m < d\<close> have last: "d = daysInMonth y m" by simp
      then have "rollover y m (d + 1) = (if m = 12 then (y + 1, 1, 1) else (y, m + 1, 1))"
        by (simp add: rollover_carry rollover_first)
      then show ?thesis
        using last "1.prems" by (simp add: rollover_fits nextDay_def)
    qed
  qed
qed

lemma rollover_funpow:
  assumes "validDate (y, m, d)"
  shows "rollover y m (d + int n) = (nextDay ^^ n) (y, m, d)"
proof (induction n)
  case 0
  then show ?case
    using assms by (simp add: validDate_def rollover_fits)
next
  case (Suc n)
  have "rollover y m (d + int (Suc n)) = rollover y m (d + int n + 1)"
    by (simp add: algebra_simps)
  also have "\<dots> = nextDay (rollover y m (d + int n))"
    using assms by (intro rollover_succ) (simp_all add: validDate_def)
  also have "\<dots> = nextDay ((nextDay ^^ n) (y, m, d))"
    by (simp only: Suc)
  finally show ?case by simp
qed

subsection \<open>The day after is later\<close>

lemma nextDay_later:
  assumes "validDate date"
  shows "validDate (nextDay date) \<and> dayKey date < dayKey (nextDay date)"
proof -
  obtain y m d where date: "date = (y, m, d)" by (cases date)
  have "28 \<le> daysInMonth y (m + 1)" "28 \<le> daysInMonth (y + 1) 1" "daysInMonth y m \<le> 31"
    by (simp_all add: daysInMonth_ge daysInMonth_le)
  with assms show ?thesis
    unfolding date validDate_def nextDay_def dayKey_def
    by (auto simp: algebra_simps)
qed

lemma funpow_nextDay_later:
  assumes "validDate date"
  shows "validDate ((nextDay ^^ n) date) \<and> dayKey date \<le> dayKey ((nextDay ^^ n) date)"
proof (induction n)
  case 0
  then show ?case using assms by simp
next
  case (Suc n)
  with nextDay_later [of "(nextDay ^^ n) date"] show ?case
    by simp
qed

lemma periodAfter_later:
  assumes "validDate date"
  shows "dayKey date < dayKey (periodAfter frequency date)"
proof -
  obtain y m d where date: "date = (y, m, d)" by (cases date)
  from assms have v: "1 \<le> m" "m \<le> 12" "1 \<le> d" "d \<le> daysInMonth y m"
    by (simp_all add: date validDate_def)
  have dim: "daysInMonth y m \<le> 31" by (rule daysInMonth_le)
  show ?thesis
  proof (cases frequency)
    case daily
    then show ?thesis
      using nextDay_later [OF assms] by (simp add: periodAfter_def date)
  next
    case weekly
    have "dayKey date < dayKey (nextDay date)" "validDate (nextDay date)"
      using nextDay_later [OF assms] by simp_all
    moreover have "dayKey (nextDay date) \<le> dayKey ((nextDay ^^ 6) (nextDay date))"
      using funpow_nextDay_later [OF \<open>validDate (nextDay date)\<close>] by simp
    moreover have "(nextDay ^^ 7) date = (nextDay ^^ 6) (nextDay date)"
      by (simp add: eval_nat_numeral funpow_swap1)
    ultimately show ?thesis
      using weekly by (simp add: periodAfter_def date)
  next
    case monthly
    let ?first = "if m = 12 then (y + 1, 1, 1) else (y, m + 1, 1)"
    have "validDate ?first"
      using v daysInMonth_ge [of y "m + 1"] daysInMonth_ge [of "y + 1" 1]
      by (simp add: validDate_def)
    then have "dayKey ?first \<le> dayKey ((nextDay ^^ nat (d - 1)) ?first)"
      using funpow_nextDay_later by blast
    moreover have "dayKey date < dayKey ?first"
      using v dim by (simp add: date dayKey_def algebra_simps)
    ultimately show ?thesis
      using monthly by (simp add: periodAfter_def date)
  next
    case yearly
    have "validDate (y + 1, m, 1)"
      using v daysInMonth_ge [of "y + 1" m] by (simp add: validDate_def)
    then have "dayKey (y + 1, m, 1) \<le> dayKey ((nextDay ^^ nat (d - 1)) (y + 1, m, 1))"
      using funpow_nextDay_later by blast
    moreover have "dayKey date < dayKey (y + 1, m, 1)"
      using v dim by (simp add: date dayKey_def algebra_simps)
    ultimately show ?thesis
      using yearly by (simp add: periodAfter_def date)
  qed
qed

subsection \<open>A host in UTC adds one period\<close>

lemma timeClip_Some: "timeClip t = Some u \<Longrightarrow> u = t"
  by (auto simp: timeClip_def split: prod.splits if_splits)

lemma calculateNextDueDate_utc:
  assumes zone: "utcZone host"
      and parsed: "dateParse host currentDate = Some (date, ms)"
      and valid: "validDate date"
      and returns: "calculateNextDueDate host currentDate frequency = Some next"
  shows "next = isoDate (periodAfter frequency date)"
proof -
  obtain y m d where date: "date = (y, m, d)" by (cases date)
  from valid have v: "1 \<le> m" "m \<le> 12" "1 \<le> d" "d \<le> daysInMonth y m"
    by (simp_all add: date validDate_def)
  have local: "localTime host t = t" and utc: "utcTime host t = t" for t
    using zone unfolding utcZone_def by blast+
  have one: "rollover y m (d + 1) = nextDay (y, m, d)"
    using rollover_funpow [OF valid [unfolded date], of 1] by simp
  have seven: "rollover y m (d + 7) = (nextDay ^^ 7) (y, m, d)"
    using rollover_funpow [OF valid [unfolded date], of 7] by simp
  have days: "1 + int (nat (d - 1)) = d"
    using v by simp
  have month: "rollover (y + m div 12) (m mod 12 + 1) d
                 = (nextDay ^^ nat (d - 1)) (if m = 12 then (y + 1, 1, 1) else (y, m + 1, 1))"
  proof (cases "m = 12")
    case True
    have "validDate (y + 1, 1, 1)"
      using daysInMonth_ge [of "y + 1" 1] by (simp add: validDate_def)
    from rollover_funpow [OF this, of "nat (d - 1)", unfolded days] True show ?thesis
      by simp
  next
    case False
    with v have "m div 12 = 0" "m mod 12 = m" by simp_all
    moreover have "validDate (y, m + 1, 1)"
      using v False daysInMonth_ge [of y "m + 1"] by (simp add: validDate_def)
    from rollover_funpow [OF this, of "nat (d - 1)", unfolded days]
    have "rollover y (m + 1) d = (nextDay ^^ nat (d - 1)) (y, m + 1, 1)" .
    ultimately show ?thesis using False by simp
  qed
  have year: "rollover (y + 1) m d = (nextDay ^^ nat (d - 1)) (y + 1, m, 1)"
  proof -
    have "validDate (y + 1, m, 1)"
      using v daysInMonth_ge [of "y + 1" m] by (simp add: validDate_def)
    from rollover_funpow [OF this, of "nat (d - 1)", unfolded days] show ?thesis .
  qed
  show ?thesis
  proof (cases frequency)
    case daily
    with returns parsed show ?thesis
      by (auto simp: calculateNextDueDate_def addDays_def local utc date one periodAfter_def
               split: option.splits dest!: timeClip_Some)
  next
    case weekly
    with returns parsed show ?thesis
      by (auto simp: calculateNextDueDate_def addDays_def local utc date seven periodAfter_def
               split: option.splits dest!: timeClip_Some)
  next
    case monthly
    with returns parsed show ?thesis
      by (auto simp: calculateNextDueDate_def addMonths_def local utc date month periodAfter_def
               split: option.splits dest!: timeClip_Some)
  next
    case yearly
    with returns parsed show ?thesis
      by (auto simp: calculateNextDueDate_def addYears_def local utc date year periodAfter_def
               split: option.splits dest!: timeClip_Some)
  qed
qed

subsection \<open>Hosts in other zones\<close>

text \<open>
  On the hosts in UTC, Berlin and New York the same call gives three different dates.
  In Berlin the daily rule of 2024-03-31 is not moved at all: midnight UTC is 01:00
  local time, the day after at 01:00 local time is 23:00 UTC of 2024-03-31, since the
  clocks go forward in between. In New York midnight UTC of the first of March is the
  evening of the 29th of February.
\<close>

lemma next_utc_2024_03_31: "calculateNextDueDate utcHost ''2024-03-31'' daily = Some ''2024-04-01''"
  by code_simp

lemma next_berlin_2024_03_31: "calculateNextDueDate berlinHost ''2024-03-31'' daily = Some ''2024-03-31''"
  by code_simp

lemma next_utc_2024_03_01: "calculateNextDueDate utcHost ''2024-03-01'' monthly = Some ''2024-04-01''"
  by code_simp

lemma next_newYork_2024_03_01: "calculateNextDueDate newYorkHost ''2024-03-01'' monthly = Some ''2024-03-29''"
  by code_simp

text \<open>
  The pinned value of the specification, on a host in UTC: one month after the 31st of
  January 2024 is the second of March.
\<close>

lemma next_utc_2024_01_31: "calculateNextDueDate utcHost ''2024-01-31'' monthly = Some ''2024-03-02''"
  by code_simp

lemma next_utc_2024_02_29: "calculateNextDueDate utcHost ''2024-02-29'' yearly = Some ''2025-03-01''"
  by code_simp

lemma next_utc_2023_12_28: "calculateNextDueDate utcHost ''2023-12-28'' weekly = Some ''2024-01-04''"
  by code_simp

text \<open>
  The ends of the range of the time values: a setter that would go beyond them stores
  \<^verbatim>\<open>Invalid Date\<close>. And the years that \<^verbatim>\<open>toISOString()\<close> writes with a sign.
\<close>

lemma end_of_time:
  "addDays utcHost (Some ((275760, 9, 12), 0)) 1 = Some ((275760, 9, 13), 0)"
  "addDays utcHost (Some ((275760, 9, 13), 0)) 1 = None"
  "addDays utcHost (Some ((275760, 9, 12), 1)) 1 = None"
  "timeClip ((- 271821, 4, 20), 0) = Some ((- 271821, 4, 20), 0)"
  "timeClip ((- 271821, 4, 19), 86399999) = None"
  by code_simp+

lemma isoDate_years:
  "isoDate (0, 1, 1) = ''0000-01-01''"
  "isoDate (9999, 12, 31) = ''9999-12-31''"
  "isoDate (10000, 1, 1) = ''+010000-01-01''"
  "isoDate (- 1, 12, 31) = ''-000001-12-31''"
  by code_simp+

text \<open>
  A string that the host's parser does not read makes the call throw.
\<close>

lemma next_unread: "dateParse host currentDate = None \<Longrightarrow> calculateNextDueDate host currentDate frequency = None"
  by (cases frequency) (simp_all add: calculateNextDueDate_def addDays_def addMonths_def addYears_def)

section \<open>The recurrence engine: what one call does\<close>

subsection \<open>One rule, and the loop over the rules\<close>

lemma processItem_not_due:
  "\<not> isDue amb r \<Longrightarrow> processItem amb n r = Some (n, r)"
  by (simp add: processItem_def)

lemma processItem_due:
  "isDue amb r \<Longrightarrow> calculateNextDueDate (dateHost amb) (rt_nextDueDate r) (rt_frequency r) = Some next
     \<Longrightarrow> processItem amb n r = Some (n @ [newTx amb (length n) r], advance r next)"
  by (simp add: processItem_def)

lemma processItem_cases:
  assumes "processItem amb n r = Some (n', u)"
  shows "(\<not> isDue amb r \<and> n' = n \<and> u = r)
       \<or> (isDue amb r \<and> (\<exists>next. calculateNextDueDate (dateHost amb) (rt_nextDueDate r) (rt_frequency r) = Some next
              \<and> n' = n @ [newTx amb (length n) r] \<and> u = advance r next))"
  using assms by (auto simp: processItem_def split: if_splits option.splits)

lemma mapItems_Some:
  "mapItems amb n rs = Some (n', us) \<Longrightarrow>
     n' = n @ map (\<lambda>(k, r). newTx amb k r) (enumerate (length n) (filter (isDue amb) rs))
     \<and> list_all2 (advanced amb) rs us"
proof (induction rs arbitrary: n n' us)
  case Nil
  then show ?case by simp
next
  case (Cons r rs)
  from Cons.prems obtain n1 u us' where
    step: "processItem amb n r = Some (n1, u)" and
    rest: "mapItems amb n1 rs = Some (n', us')" and
    us: "us = u # us'"
    by (auto split: option.splits prod.splits)
  note ih = Cons.IH [OF rest]
  from processItem_cases [OF step] show ?case
  proof
    assume "\<not> isDue amb r \<and> n1 = n \<and> u = r"
    with ih us show ?thesis by (simp add: advanced_def)
  next
    assume "isDue amb r \<and> (\<exists>next. calculateNextDueDate (dateHost amb) (rt_nextDueDate r) (rt_frequency r) = Some next
              \<and> n1 = n @ [newTx amb (length n) r] \<and> u = advance r next)"
    with ih us show ?thesis by (auto simp: advanced_def)
  qed
qed

lemma mapItems_total:
  "(\<forall>r \<in> set rs. isDue amb r \<longrightarrow>
       calculateNextDueDate (dateHost amb) (rt_nextDueDate r) (rt_frequency r) \<noteq> None)
     \<Longrightarrow> \<exists>n' us. mapItems amb n rs = Some (n', us)"
proof (induction rs arbitrary: n)
  case Nil
  then show ?case by simp
next
  case (Cons r rs)
  have "\<exists>n1 u. processItem amb n r = Some (n1, u)"
    using Cons.prems
    by (cases "isDue amb r") (auto simp: processItem_def split: option.splits)
  then obtain n1 u where step: "processItem amb n r = Some (n1, u)" by blast
  from Cons.IH [of n1] Cons.prems obtain n' us where "mapItems amb n1 rs = Some (n', us)"
    by auto
  with step show ?case by simp
qed

lemma mapItems_append:
  "mapItems amb n (xs @ ys) =
     (case mapItems amb n xs of
        None \<Rightarrow> None
      | Some (n1, us) \<Rightarrow>
          (case mapItems amb n1 ys of
             None \<Rightarrow> None
           | Some (n2, vs) \<Rightarrow> Some (n2, us @ vs)))"
  by (induction xs arbitrary: n) (auto split: option.splits)

lemma mapItems_length:
  "mapItems amb n rs = Some (n', us) \<Longrightarrow> length us = length rs"
  by (induction rs arbitrary: n n' us) (auto split: option.splits)


lemma mapItems_throws:
  "r \<in> set rs \<Longrightarrow> isDue amb r
     \<Longrightarrow> calculateNextDueDate (dateHost amb) (rt_nextDueDate r) (rt_frequency r) = None
     \<Longrightarrow> mapItems amb n rs = None"
proof (induction rs arbitrary: n)
  case Nil
  then show ?case by simp
next
  case (Cons a rs)
  show ?case
  proof (cases "a = r")
    case True
    with Cons.prems show ?thesis
      by (simp add: processItem_def)
  next
    case False
    with Cons.prems have "mapItems amb n' rs = None" for n'
      by (intro Cons.IH) simp_all
    then show ?thesis
      by (simp split: option.splits)
  qed
qed

text \<open>
  The call returns exactly when \<^verbatim>\<open>calculateNextDueDate\<close> returns for every rule that
  is due.
\<close>

lemma engine_returns_iff:
  "processDueRecurringTransactions amb recurringList currentTransactions \<noteq> None
     \<longleftrightarrow> (\<forall>r \<in> set recurringList. isDue amb r \<longrightarrow>
            calculateNextDueDate (dateHost amb) (rt_nextDueDate r) (rt_frequency r) \<noteq> None)"
proof
  assume "processDueRecurringTransactions amb recurringList currentTransactions \<noteq> None"
  then have run: "mapItems amb [] recurringList \<noteq> None"
    by (simp add: processDueRecurringTransactions_def)
  show "\<forall>r \<in> set recurringList. isDue amb r \<longrightarrow>
            calculateNextDueDate (dateHost amb) (rt_nextDueDate r) (rt_frequency r) \<noteq> None"
  proof (intro ballI impI notI)
    fix r
    assume "r \<in> set recurringList" "isDue amb r"
      "calculateNextDueDate (dateHost amb) (rt_nextDueDate r) (rt_frequency r) = None"
    then have "mapItems amb [] recurringList = None"
      by (rule mapItems_throws)
    with run show False by simp
  qed
next
  assume "\<forall>r \<in> set recurringList. isDue amb r \<longrightarrow>
            calculateNextDueDate (dateHost amb) (rt_nextDueDate r) (rt_frequency r) \<noteq> None"
  from mapItems_total [OF this, of "[]"]
  show "processDueRecurringTransactions amb recurringList currentTransactions \<noteq> None"
    by (auto simp: processDueRecurringTransactions_def)
qed

subsection \<open>The example rules\<close>

text \<open>
  On 2024-03-15 the monthly rule \<open>exampleRent\<close>, due since 2024-01-01, is more than
  two periods behind; the weekly rule \<open>exampleGym\<close> is switched off; the daily rule
  \<open>exampleCoffee\<close> is one day behind. The host is in UTC.
\<close>

lemma exampleRent_due: "isDue exampleAmbient exampleRent"
  by (simp add: isDue_def exampleAmbient_def exampleRent_def)

lemma exampleGym_not_due: "\<not> isDue exampleAmbient exampleGym"
  by (simp add: isDue_def exampleGym_def)

lemma exampleCoffee_due: "isDue exampleAmbient exampleCoffee"
  by (simp add: isDue_def exampleAmbient_def exampleCoffee_def)

lemma exampleAmbient_host: "dateHost exampleAmbient = utcHost"
  by (simp add: exampleAmbient_def)

lemma utcHost_utcZone: "utcZone utcHost"
  by (simp add: utcZone_def utcHost_def)

lemma next_2024_01_01: "calculateNextDueDate utcHost ''2024-01-01'' monthly = Some ''2024-02-01''"
  by code_simp

lemma next_2024_02_01: "calculateNextDueDate utcHost ''2024-02-01'' monthly = Some ''2024-03-01''"
  by code_simp

lemma next_2024_03_14: "calculateNextDueDate utcHost ''2024-03-14'' daily = Some ''2024-03-15''"
  by code_simp

lemma first_run:
  "processDueRecurringTransactions exampleAmbient [exampleGym, exampleRent] [] =
    Some ([newTx exampleAmbient 0 exampleRent], [exampleGym, advance exampleRent ''2024-02-01''])"
  by (simp add: processDueRecurringTransactions_def processItem_def exampleRent_due exampleGym_not_due
        exampleAmbient_host)
     (simp add: exampleRent_def next_2024_01_01)

lemma first_run_rent:
  "processDueRecurringTransactions exampleAmbient [exampleRent] [] =
       Some ([newTx exampleAmbient 0 exampleRent], [advance exampleRent ''2024-02-01''])"
  by (simp add: processDueRecurringTransactions_def processItem_def exampleRent_due exampleAmbient_host)
     (simp add: exampleRent_def next_2024_01_01)

subsection \<open>The rules that come back\<close>

text \<open>
  Claim C10. The list \<open>updatedRecurring\<close> that \<open>processDueRecurringTransactions\<close>
  returns has the length and the order of the list it was given, and in every rule the
  fields \<open>id\<close>, \<open>frequency\<close>, \<open>payee\<close>, \<open>description\<close>, \<open>splits\<close> and
  \<open>active\<close> are the ones of the rule at the same position of the input: the call
  neither adds nor drops a rule, and only \<open>lastRun\<close> and \<open>nextDueDate\<close> can differ.
\<close>

theorem updatedRecurring_frame:
  assumes "processDueRecurringTransactions amb recurringList currentTransactions
             = Some (newTransactions, updatedRecurring)"
  shows "length updatedRecurring = length recurringList
       \<and> (\<forall>i < length recurringList.
            rt_id (updatedRecurring ! i) = rt_id (recurringList ! i)
          \<and> rt_frequency (updatedRecurring ! i) = rt_frequency (recurringList ! i)
          \<and> rt_payee (updatedRecurring ! i) = rt_payee (recurringList ! i)
          \<and> rt_description (updatedRecurring ! i) = rt_description (recurringList ! i)
          \<and> rt_splits (updatedRecurring ! i) = rt_splits (recurringList ! i)
          \<and> rt_active (updatedRecurring ! i) = rt_active (recurringList ! i))"
proof -
  from assms have rel: "list_all2 (advanced amb) recurringList updatedRecurring"
    by (simp add: processDueRecurringTransactions_def mapItems_Some)
  have len: "length updatedRecurring = length recurringList"
    using rel by (simp add: list_all2_lengthD)
  have "\<forall>i < length recurringList. advanced amb (recurringList ! i) (updatedRecurring ! i)"
    using rel by (simp add: list_all2_conv_all_nth)
  then have "\<forall>i < length recurringList.
            rt_id (updatedRecurring ! i) = rt_id (recurringList ! i)
          \<and> rt_frequency (updatedRecurring ! i) = rt_frequency (recurringList ! i)
          \<and> rt_payee (updatedRecurring ! i) = rt_payee (recurringList ! i)
          \<and> rt_description (updatedRecurring ! i) = rt_description (recurringList ! i)
          \<and> rt_splits (updatedRecurring ! i) = rt_splits (recurringList ! i)
          \<and> rt_active (updatedRecurring ! i) = rt_active (recurringList ! i)"
    by (auto simp: advanced_def advance_def split: if_splits)
  with len show ?thesis by blast
qed

text \<open>
  On the example the two rules come back in place, the second with its identity and a
  new due date.
\<close>

theorem updatedRecurring_frame_witness:
  "length [exampleGym, advance exampleRent ''2024-02-01''] = length [exampleGym, exampleRent]
   \<and> rt_id (advance exampleRent ''2024-02-01'') = ''r1''
   \<and> rt_active (advance exampleRent ''2024-02-01'')
   \<and> rt_nextDueDate (advance exampleRent ''2024-02-01'') \<noteq> rt_nextDueDate exampleRent"
  using updatedRecurring_frame [OF first_run]
  by (simp add: nth_Cons' exampleRent_def advance_def)

subsection \<open>A rule that is switched off\<close>

text \<open>
  Claim C6. A rule with \<open>active = false\<close>, whatever its \<open>nextDueDate\<close>, changes
  nothing: the call on a list that holds it emits exactly the transactions of the call
  on the list without it, and returns the rule itself, every field as it was, at its
  position among the other returned rules.
\<close>

theorem inactive_rule_untouched:
  assumes "\<not> rt_active item"
  shows "processDueRecurringTransactions amb (before @ item # after) currentTransactions =
           (case processDueRecurringTransactions amb (before @ after) currentTransactions of
              None \<Rightarrow> None
            | Some (newTransactions, updated) \<Rightarrow>
                Some (newTransactions,
                      take (length before) updated @ item # drop (length before) updated))"
proof -
  have skip: "\<And>n. processItem amb n item = Some (n, item)"
    using assms by (simp add: processItem_not_due isDue_def)
  show ?thesis
  proof (cases "mapItems amb [] before")
    case None
    then show ?thesis
      by (simp add: processDueRecurringTransactions_def mapItems_append)
  next
    case (Some p)
    obtain n1 us where p: "p = (n1, us)" by (cases p)
    have len: "length us = length before"
      using Some p by (simp add: mapItems_length)
    show ?thesis
      using Some p len skip
      by (auto simp: processDueRecurringTransactions_def mapItems_append split: option.splits)
  qed
qed

text \<open>
  The switched-off gym rule has been due since 2023-11-06 and still passes through.
\<close>

theorem inactive_rule_untouched_witness:
  "\<not> rt_active exampleGym \<and> rt_nextDueDate exampleGym \<le> clockToday exampleAmbient
   \<and> processDueRecurringTransactions exampleAmbient [exampleGym, exampleRent] [] =
       Some ([newTx exampleAmbient 0 exampleRent], [exampleGym, advance exampleRent ''2024-02-01''])
   \<and> processDueRecurringTransactions exampleAmbient [exampleRent] [] =
       Some ([newTx exampleAmbient 0 exampleRent], [advance exampleRent ''2024-02-01''])"
proof -
  have inactive: "\<not> rt_active exampleGym" by (simp add: exampleGym_def)
  have past: "rt_nextDueDate exampleGym \<le> clockToday exampleAmbient"
    by (simp add: exampleGym_def exampleAmbient_def)
  from inactive_rule_untouched [OF inactive, of exampleAmbient "[]" "[exampleRent]" "[]"] first_run_rent
  have "processDueRecurringTransactions exampleAmbient [exampleGym, exampleRent] [] =
       Some ([newTx exampleAmbient 0 exampleRent], [exampleGym, advance exampleRent ''2024-02-01''])"
    by simp
  with inactive past first_run_rent show ?thesis by blast
qed

subsection \<open>A rule that is due\<close>

lemma repeated_run:
  "processDueRecurringTransactions repeatingAmbient [exampleRent, exampleCoffee] [txOld] =
     Some ([newTx repeatingAmbient 0 exampleRent, newTx repeatingAmbient 1 exampleCoffee],
           [advance exampleRent ''2024-02-01'', advance exampleCoffee ''2024-03-15''])"
proof -
  have due: "isDue repeatingAmbient exampleRent" "isDue repeatingAmbient exampleCoffee"
    by (simp_all add: isDue_def repeatingAmbient_def exampleAmbient_def exampleRent_def
          exampleCoffee_def)
  have host: "dateHost repeatingAmbient = utcHost"
    by (simp add: repeatingAmbient_def exampleAmbient_def)
  have "calculateNextDueDate utcHost (rt_nextDueDate exampleRent) (rt_frequency exampleRent)
          = Some ''2024-02-01''"
       "calculateNextDueDate utcHost (rt_nextDueDate exampleCoffee) (rt_frequency exampleCoffee)
          = Some ''2024-03-15''"
    by (simp_all add: exampleRent_def exampleCoffee_def next_2024_01_01 next_2024_03_14)
  then show ?thesis
    by (simp add: processDueRecurringTransactions_def processItem_def due host)
qed

lemma undated_run:
  "processDueRecurringTransactions exampleAmbient [exampleUndated] [] = None"
proof -
  have "isDue exampleAmbient exampleUndated"
    by (simp add: isDue_def exampleUndated_def)
  moreover have "dateParse utcHost (rt_nextDueDate exampleUndated) = None"
    by (simp add: utcHost_def parseIsoDay_def exampleUndated_def)
  ultimately show ?thesis
    by (simp add: processDueRecurringTransactions_def processItem_def exampleAmbient_host next_unread)
qed

text \<open>
  Claim C5 as it is stated fails where it promises something that the code has no
  check for.
  \<^item> The id of an emitted transaction is the string that \<^verbatim>\<open>generateId()\<close> returns,
    a random draw that is compared neither with the ids of the ledger nor with the other
    new ids (the parameter \<^verbatim>\<open>currentTransactions\<close> is never read). When the generator
    returns the id of the transaction \<open>txOld\<close> again, the two transactions emitted for
    two due rules both carry that id: they are not fresh.
  \<^item> A rule whose \<open>nextDueDate\<close> the host's \<^verbatim>\<open>Date\<close> does not read, here the empty
    string, is due by the comparison of the strings, and \<^verbatim>\<open>calculateNextDueDate\<close>
    throws on it: the call ends with the exception and emits nothing for any rule.
\<close>

theorem due_rule_not_fresh_counterexample:
  "processDueRecurringTransactions repeatingAmbient [exampleRent, exampleCoffee] [txOld] =
     Some ([newTx repeatingAmbient 0 exampleRent, newTx repeatingAmbient 1 exampleCoffee],
           [advance exampleRent ''2024-02-01'', advance exampleCoffee ''2024-03-15''])
   \<and> tx_id (newTx repeatingAmbient 0 exampleRent) = tx_id txOld
   \<and> tx_id (newTx repeatingAmbient 1 exampleCoffee) = tx_id txOld
   \<and> rt_active exampleUndated
   \<and> rt_nextDueDate exampleUndated \<le> clockToday exampleAmbient
   \<and> processDueRecurringTransactions exampleAmbient [exampleUndated] [] = None"
  using repeated_run undated_run
  by (simp add: newTx_def repeatingAmbient_def txOld_def exampleUndated_def)

text \<open>
  Claim C5, as amended. Let \<open>item\<close> be an active rule with \<open>nextDueDate \<le> today\<close>,
  anywhere in the list, and let \<^verbatim>\<open>calculateNextDueDate\<close> return for every due rule of
  the list (it throws when the host's \<^verbatim>\<open>Date\<close> does not read the rule's due date).
  Then one call returns, and
  \<^item> it emits one transaction for each due rule and no other (the emitted list is as
    long as the list of due rules);
  \<^item> the ids of the emitted transactions are the values of successive
    \<^verbatim>\<open>generateId()\<close> calls, one call for each, whatever these are;
  \<^item> the transaction of \<open>item\<close>, at the position of \<open>item\<close> among the due rules, has
    the date of the rule's old \<open>nextDueDate\<close> (not of today), the rule's payee, the
    rule's description followed by \<^verbatim>\<open> (Recurring)\<close>, and the rule's splits as they are;
  \<^item> the returned rule has \<open>lastRun\<close> at the old due date and \<open>nextDueDate\<close> at the
    value of one call of \<open>calculateNextDueDate\<close> on the old due date, however many
    periods have gone by;
  \<^item> on a host whose local time is UTC that value is the day one period after the old
    due date (the day the host reads it as): the next day, the seventh day after, or as
    many days after the first of the next month, or of the same month of the next year,
    as the day was after the first of its month; and that day is a later day.
\<close>

theorem due_rule_emits_once:
  assumes returns: "\<forall>r \<in> set (before @ item # after).
                    isDue amb r \<longrightarrow>
                      calculateNextDueDate (dateHost amb) (rt_nextDueDate r) (rt_frequency r) \<noteq> None"
      and active: "rt_active item"
      and due: "rt_nextDueDate item \<le> clockToday amb"
  shows "\<exists>newTransactions updated next.
           processDueRecurringTransactions amb (before @ item # after) currentTransactions
             = Some (newTransactions, updated)
         \<and> length newTransactions = length (filter (isDue amb) (before @ item # after))
         \<and> map tx_id newTransactions = map (generateId amb) [0 ..< length newTransactions]
         \<and> newTransactions ! length (filter (isDue amb) before) =
              \<lparr> tx_id = generateId amb (length (filter (isDue amb) before)),
                tx_date = rt_nextDueDate item,
                tx_payee = Some (rt_payee item),
                tx_description = Some (rt_description item @ '' (Recurring)''),
                tx_splits = rt_splits item,
                tx_createdAt = dateNow amb (length (filter (isDue amb) before)) \<rparr>
         \<and> calculateNextDueDate (dateHost amb) (rt_nextDueDate item) (rt_frequency item) = Some next
         \<and> updated ! length before =
              item \<lparr> rt_lastRun := Some (rt_nextDueDate item), rt_nextDueDate := next \<rparr>
         \<and> (\<forall>date ms.
               utcZone (dateHost amb)
               \<and> dateParse (dateHost amb) (rt_nextDueDate item) = Some (date, ms)
               \<and> validDate date
               \<longrightarrow> next = isoDate (periodAfter (rt_frequency item) date)
                   \<and> dayKey date < dayKey (periodAfter (rt_frequency item) date))"
proof -
  let ?rs = "before @ item # after"
  let ?k = "length (filter (isDue amb) before)"
  have itemDue: "isDue amb item"
    using active due by (simp add: isDue_def)
  from mapItems_total [OF returns, of "[]"] obtain new upd where
    run: "mapItems amb [] ?rs = Some (new, upd)" by blast
  from mapItems_Some [OF run] have
    new: "new = map (\<lambda>(k, r). newTx amb k r) (enumerate 0 (filter (isDue amb) ?rs))" and
    rel: "list_all2 (advanced amb) ?rs upd"
    by simp_all
  have len: "length new = length (filter (isDue amb) ?rs)"
    by (simp add: new)
  define ds where "ds = filter (isDue amb) ?rs"
  have ids: "map tx_id new = map (generateId amb) [0 ..< length new]"
  proof -
    have "map tx_id new = map (generateId amb \<circ> fst) (enumerate 0 ds)"
      by (simp add: new newTx_def split_def comp_def ds_def)
    also have "\<dots> = map (generateId amb) (map fst (enumerate 0 ds))"
      by (simp only: map_map)
    also have "map fst (enumerate 0 ds) = [0 ..< length new]"
      by (simp add: len ds_def)
    finally show ?thesis .
  qed
  have kth: "new ! ?k = newTx amb ?k item"
  proof -
    have less: "?k < length (filter (isDue amb) ?rs)"
      using itemDue by simp
    then have "enumerate 0 (filter (isDue amb) ?rs) ! ?k = (0 + ?k, filter (isDue amb) ?rs ! ?k)"
      by (rule nth_enumerate_eq)
    moreover have "filter (isDue amb) ?rs ! ?k = item"
      using itemDue by simp
    ultimately show ?thesis
      using less by (simp add: new)
  qed
  have "length before < length ?rs" by simp
  with rel have "advanced amb (?rs ! length before) (upd ! length before)"
    by (rule list_all2_nthD)
  then have "advanced amb item (upd ! length before)" by simp
  then obtain nd where
    nxt: "calculateNextDueDate (dateHost amb) (rt_nextDueDate item) (rt_frequency item) = Some nd" and
    adv: "upd ! length before = advance item nd"
    using itemDue by (auto simp: advanced_def)
  have period: "\<forall>date ms.
               utcZone (dateHost amb)
               \<and> dateParse (dateHost amb) (rt_nextDueDate item) = Some (date, ms)
               \<and> validDate date
               \<longrightarrow> nd = isoDate (periodAfter (rt_frequency item) date)
                   \<and> dayKey date < dayKey (periodAfter (rt_frequency item) date)"
    using calculateNextDueDate_utc [OF _ _ _ nxt] periodAfter_later by blast
  have "processDueRecurringTransactions amb ?rs currentTransactions = Some (new, upd)
         \<and> length new = length (filter (isDue amb) ?rs)
         \<and> map tx_id new = map (generateId amb) [0 ..< length new]
         \<and> new ! ?k =
              \<lparr> tx_id = generateId amb ?k,
                tx_date = rt_nextDueDate item,
                tx_payee = Some (rt_payee item),
                tx_description = Some (rt_description item @ '' (Recurring)''),
                tx_splits = rt_splits item,
                tx_createdAt = dateNow amb ?k \<rparr>
         \<and> calculateNextDueDate (dateHost amb) (rt_nextDueDate item) (rt_frequency item) = Some nd
         \<and> upd ! length before =
              item \<lparr> rt_lastRun := Some (rt_nextDueDate item), rt_nextDueDate := nd \<rparr>"
    using run len ids kth nxt adv
    by (simp add: processDueRecurringTransactions_def newTx_def advance_def)
  with period show ?thesis by blast
qed

text \<open>
  The rent rule is ten weeks late on 2024-03-15, the coffee rule a day. The call emits
  one transaction for each. The one of the rent rule is dated 2024-01-01; the rule
  comes back due on 2024-02-01, one month after 2024-01-01.
\<close>

theorem due_rule_emits_once_witness:
  "rt_active exampleRent \<and> rt_nextDueDate exampleRent \<le> clockToday exampleAmbient
   \<and> utcZone (dateHost exampleAmbient)
   \<and> dateParse (dateHost exampleAmbient) (rt_nextDueDate exampleRent) = Some ((2024, 1, 1), 0)
   \<and> validDate (2024, 1, 1)
   \<and> isoDate (periodAfter monthly (2024, 1, 1)) = ''2024-02-01''
   \<and> (\<exists>newTransactions updated.
         processDueRecurringTransactions exampleAmbient [exampleGym, exampleRent, exampleCoffee] []
           = Some (newTransactions, updated)
       \<and> length newTransactions = 2
       \<and> map tx_id newTransactions = [''id0000000'', ''id0000001'']
       \<and> tx_date (newTransactions ! 0) = ''2024-01-01''
       \<and> tx_description (newTransactions ! 0) = Some ''Rent (Recurring)''
       \<and> rt_nextDueDate (updated ! 1) = ''2024-02-01''
       \<and> rt_lastRun (updated ! 1) = Some ''2024-01-01'')"
proof -
  have returns: "\<forall>r \<in> set ([exampleGym] @ exampleRent # [exampleCoffee]).
                 isDue exampleAmbient r \<longrightarrow>
                   calculateNextDueDate (dateHost exampleAmbient) (rt_nextDueDate r) (rt_frequency r)
                     \<noteq> None"
    by (simp add: exampleGym_not_due exampleAmbient_host)
       (simp add: exampleRent_def exampleCoffee_def next_2024_01_01 next_2024_03_14)
  have active: "rt_active exampleRent" by (simp add: exampleRent_def)
  have due: "rt_nextDueDate exampleRent \<le> clockToday exampleAmbient"
    by (simp add: exampleRent_def exampleAmbient_def)
  have zone: "utcZone (dateHost exampleAmbient)"
    by (simp add: exampleAmbient_host utcHost_utcZone)
  have parsed: "dateParse (dateHost exampleAmbient) (rt_nextDueDate exampleRent)
                  = Some ((2024, 1, 1), 0)"
    by (simp add: exampleAmbient_host utcHost_def exampleRent_def) code_simp
  have valid: "validDate (2024, 1, 1)"
    by code_simp
  have period: "isoDate (periodAfter monthly (2024, 1, 1)) = ''2024-02-01''"
    by code_simp
  have dues: "filter (isDue exampleAmbient) [exampleGym, exampleRent, exampleCoffee]
                = [exampleRent, exampleCoffee]"
    by (simp add: exampleGym_not_due exampleRent_due exampleCoffee_due)
  have "padDigits 7 0 = ''0000000''" "padDigits 7 1 = ''0000001''"
    by code_simp+
  then have ids: "map (generateId exampleAmbient) [0 ..< 2] = [''id0000000'', ''id0000001'']"
    by (simp add: exampleAmbient_def upt_rec numeral_2_eq_2)
  from due_rule_emits_once [OF returns active due, of "[]"]
  obtain newTransactions updated nd where
    run: "processDueRecurringTransactions exampleAmbient [exampleGym, exampleRent, exampleCoffee] []
            = Some (newTransactions, updated)" and
    len: "length newTransactions
            = length (filter (isDue exampleAmbient) [exampleGym, exampleRent, exampleCoffee])" and
    idl: "map tx_id newTransactions = map (generateId exampleAmbient) [0 ..< length newTransactions]" and
    kth: "newTransactions ! length (filter (isDue exampleAmbient) [exampleGym]) =
              \<lparr> tx_id = generateId exampleAmbient (length (filter (isDue exampleAmbient) [exampleGym])),
                tx_date = rt_nextDueDate exampleRent,
                tx_payee = Some (rt_payee exampleRent),
                tx_description = Some (rt_description exampleRent @ '' (Recurring)''),
                tx_splits = rt_splits exampleRent,
                tx_createdAt = dateNow exampleAmbient (length (filter (isDue exampleAmbient) [exampleGym])) \<rparr>" and
    upd: "updated ! length [exampleGym] =
              exampleRent \<lparr> rt_lastRun := Some (rt_nextDueDate exampleRent), rt_nextDueDate := nd \<rparr>" and
    utc: "\<forall>date ms.
               utcZone (dateHost exampleAmbient)
               \<and> dateParse (dateHost exampleAmbient) (rt_nextDueDate exampleRent) = Some (date, ms)
               \<and> validDate date
               \<longrightarrow> nd = isoDate (periodAfter (rt_frequency exampleRent) date)
                   \<and> dayKey date < dayKey (periodAfter (rt_frequency exampleRent) date)"
    by auto
  have freq: "rt_frequency exampleRent = monthly"
    by (simp add: exampleRent_def)
  from utc zone parsed valid
  have "nd = isoDate (periodAfter (rt_frequency exampleRent) (2024, 1, 1))"
    by blast
  then have nd: "nd = ''2024-02-01''"
    by (simp only: freq period)
  have len2: "length newTransactions = 2"
    using len unfolding dues by simp
  have idl2: "map tx_id newTransactions = [''id0000000'', ''id0000001'']"
    using idl ids by (simp only: len2)
  have tx: "tx_date (newTransactions ! 0) = ''2024-01-01''"
    "tx_description (newTransactions ! 0) = Some ''Rent (Recurring)''"
    using kth by (simp_all add: exampleGym_not_due exampleRent_def)
  have rule: "rt_nextDueDate (updated ! 1) = ''2024-02-01''"
    "rt_lastRun (updated ! 1) = Some ''2024-01-01''"
    using upd nd by (simp_all add: exampleRent_def)
  have "\<exists>newTransactions updated.
         processDueRecurringTransactions exampleAmbient [exampleGym, exampleRent, exampleCoffee] []
           = Some (newTransactions, updated)
       \<and> length newTransactions = 2
       \<and> map tx_id newTransactions = [''id0000000'', ''id0000001'']
       \<and> tx_date (newTransactions ! 0) = ''2024-01-01''
       \<and> tx_description (newTransactions ! 0) = Some ''Rent (Recurring)''
       \<and> rt_nextDueDate (updated ! 1) = ''2024-02-01''
       \<and> rt_lastRun (updated ! 1) = Some ''2024-01-01''"
    by (rule exI [of _ newTransactions], rule exI [of _ updated])
       (intro conjI run len2 idl2 tx rule)
  with active due zone parsed valid period show ?thesis
    by (intro conjI)
qed

text \<open>
  What the amended claim leaves out: on a host whose time zone is not UTC the date
  that \<^verbatim>\<open>calculateNextDueDate\<close> returns is not always one period after the old one,
  since the function reads the date as midnight UTC, adds the period to the local time
  and prints the UTC day of the result. On a host in Berlin the daily rule that is due
  on 2024-03-31, the day the clocks go forward, comes back due on 2024-03-31.
\<close>

lemma due_rule_not_moved_berlin:
  "processDueRecurringTransactions berlinAmbient [exampleBackup] [] =
     Some ([newTx berlinAmbient 0 exampleBackup], [advance exampleBackup ''2024-03-31''])
   \<and> rt_nextDueDate (advance exampleBackup ''2024-03-31'') = rt_nextDueDate exampleBackup"
proof -
  have "isDue berlinAmbient exampleBackup"
    by (simp add: isDue_def berlinAmbient_def exampleBackup_def)
  moreover have "dateHost berlinAmbient = berlinHost"
    by (simp add: berlinAmbient_def)
  moreover have "calculateNextDueDate berlinHost (rt_nextDueDate exampleBackup)
                   (rt_frequency exampleBackup) = Some ''2024-03-31''"
    by (simp add: exampleBackup_def next_berlin_2024_03_31)
  ultimately show ?thesis
    by (simp add: processDueRecurringTransactions_def processItem_def)
       (simp add: advance_def exampleBackup_def)
qed

subsection \<open>A second call on the same day\<close>

lemma filter_map_list_all2:
  "list_all2 R xs ys \<Longrightarrow> (\<And>x y. R x y \<Longrightarrow> Q y = P x) \<Longrightarrow> (\<And>x y. R x y \<Longrightarrow> P x \<Longrightarrow> y = g x)
     \<Longrightarrow> filter Q ys = map g (filter P xs)"
  by (induction rule: list_all2_induct) auto

lemma advanced_isDue:
  assumes "advanced amb r u" and "clockToday amb' = clockToday amb"
  shows "isDue amb' u = stillDue amb r"
  using assms
  by (auto simp: advanced_def stillDue_def isDue_def advance_def split: if_splits)

lemma advanced_movedOn:
  assumes "advanced amb r u" and "stillDue amb r"
  shows "u = movedOn (dateHost amb) r"
  using assms
  by (auto simp: advanced_def stillDue_def movedOn_def)

lemma enumerate_map_snd:
  "enumerate n (map g xs) = map (\<lambda>(k, x). (k, g x)) (enumerate n xs)"
  by (induction xs arbitrary: n) simp_all

text \<open>
  Claim C2, as amended. Call the engine, put the returned rules in the place of the old
  ones, and call it again while the clock shows the same day. A rule is still due when
  it was active and due at the first call and the date that the first call's
  \<^verbatim>\<open>calculateNextDueDate\<close> moved it to is not after today either. The second call
  emits one transaction for each rule that is still due, in the order of the rules, and
  no other: the \<open>k\<close>-th of them is the transaction \<open>newTx\<close> of the \<open>k\<close>-th such rule
  as the first call returned it, so it carries the rule's payee, description and splits
  and is dated at the date the first call moved the rule to. So the second call emits
  nothing exactly when no rule is still due.
\<close>

theorem second_run_emits_still_due:
  assumes first: "processDueRecurringTransactions amb recurringList currentTransactions
                    = Some (newTransactions, updatedRecurring)"
      and same: "clockToday amb' = clockToday amb"
      and second: "processDueRecurringTransactions amb' updatedRecurring currentTransactions'
                    = Some (newTransactions', updatedRecurring')"
  shows "newTransactions' =
           map (\<lambda>(k, r). newTx amb' k (movedOn (dateHost amb) r))
               (enumerate 0 (filter (stillDue amb) recurringList))
       \<and> length newTransactions' = length (filter (stillDue amb) recurringList)
       \<and> (newTransactions' = [] \<longleftrightarrow> (\<forall>r \<in> set recurringList. \<not> stillDue amb r))"
proof -
  from first have rel: "list_all2 (advanced amb) recurringList updatedRecurring"
    by (simp add: processDueRecurringTransactions_def mapItems_Some)
  have dues: "filter (isDue amb') updatedRecurring
                = map (movedOn (dateHost amb)) (filter (stillDue amb) recurringList)"
    using rel advanced_isDue [OF _ same] advanced_movedOn
    by (rule filter_map_list_all2)
  from second have
    "newTransactions' =
       map (\<lambda>(k, r). newTx amb' k r) (enumerate 0 (filter (isDue amb') updatedRecurring))"
    using mapItems_Some [of amb' "[]" updatedRecurring newTransactions' updatedRecurring']
    by (simp add: processDueRecurringTransactions_def)
  then have new: "newTransactions' =
           map (\<lambda>(k, r). newTx amb' k (movedOn (dateHost amb) r))
               (enumerate 0 (filter (stillDue amb) recurringList))"
    by (simp add: dues enumerate_map_snd split_def comp_def)
  then have len: "length newTransactions' = length (filter (stillDue amb) recurringList)"
    by simp
  have "(newTransactions' = []) = (filter (stillDue amb) recurringList = [])"
    using len by (metis length_0_conv)
  then have "newTransactions' = [] \<longleftrightarrow> (\<forall>r \<in> set recurringList. \<not> stillDue amb r)"
    by (simp add: filter_empty_conv)
  with new len show ?thesis by blast
qed

lemma second_run:
  "processDueRecurringTransactions exampleAmbient [advance exampleRent ''2024-02-01'']
      [newTx exampleAmbient 0 exampleRent] =
    Some ([newTx exampleAmbient 0 (advance exampleRent ''2024-02-01'')],
          [advance (advance exampleRent ''2024-02-01'') ''2024-03-01''])"
  by (simp add: processDueRecurringTransactions_def processItem_def isDue_def exampleAmbient_host)
     (simp add: exampleRent_def exampleAmbient_def advance_def next_2024_02_01)

text \<open>
  Claim C2 as it is stated, that the second call never emits, fails for a rule that is
  more than one period behind: the rent rule, due since 2024-01-01, is moved to
  2024-02-01 by the first call on 2024-03-15 and is due again at the second.
\<close>

theorem second_run_counterexample:
  "processDueRecurringTransactions exampleAmbient [exampleRent] [] =
     Some ([newTx exampleAmbient 0 exampleRent], [advance exampleRent ''2024-02-01''])
   \<and> processDueRecurringTransactions exampleAmbient [advance exampleRent ''2024-02-01'']
       ([newTx exampleAmbient 0 exampleRent] @ []) =
     Some ([newTx exampleAmbient 0 (advance exampleRent ''2024-02-01'')],
           [advance (advance exampleRent ''2024-02-01'') ''2024-03-01''])
   \<and> [newTx exampleAmbient 0 (advance exampleRent ''2024-02-01'')] \<noteq> []"
  using first_run_rent second_run by simp

text \<open>
  On the example the rent rule is still due after the first call, and the transaction
  of the second call is the one of the rule as the first call returned it, dated
  2024-02-01.
\<close>

theorem second_run_emits_still_due_witness:
  "stillDue exampleAmbient exampleRent
   \<and> movedOn (dateHost exampleAmbient) exampleRent = advance exampleRent ''2024-02-01''
   \<and> [newTx exampleAmbient 0 (advance exampleRent ''2024-02-01'')]
       = map (\<lambda>(k, r). newTx exampleAmbient k (movedOn (dateHost exampleAmbient) r))
             (enumerate 0 (filter (stillDue exampleAmbient) [exampleRent]))
   \<and> tx_date (newTx exampleAmbient 0 (advance exampleRent ''2024-02-01'')) = ''2024-02-01''"
proof -
  have still: "stillDue exampleAmbient exampleRent"
    by (simp add: stillDue_def exampleRent_due exampleAmbient_host)
       (simp add: exampleRent_def next_2024_01_01 exampleAmbient_def)
  have moved: "movedOn (dateHost exampleAmbient) exampleRent = advance exampleRent ''2024-02-01''"
    by (simp add: movedOn_def exampleAmbient_host)
       (simp add: exampleRent_def next_2024_01_01)
  have dated: "tx_date (newTx exampleAmbient 0 (advance exampleRent ''2024-02-01'')) = ''2024-02-01''"
    by (simp add: newTx_def advance_def)
  from second_run_emits_still_due [OF first_run_rent refl second_run]
  have "[newTx exampleAmbient 0 (advance exampleRent ''2024-02-01'')]
       = map (\<lambda>(k, r). newTx exampleAmbient k (movedOn (dateHost exampleAmbient) r))
             (enumerate 0 (filter (stillDue exampleAmbient) [exampleRent]))"
    by blast
  with still moved dated show ?thesis
    by (intro conjI)
qed

text \<open>
  The rules that are still due depend on the host. On the last day of March 2024 the
  daily rule that is due on that day is moved to the first of April by a host in UTC
  and is not still due; a host in Berlin leaves it on 2024-03-31, where it is still
  due, and a second call on that day emits its transaction again.
\<close>

lemma still_due_berlin:
  "stillDue berlinAmbient exampleBackup
   \<and> \<not> stillDue (berlinAmbient \<lparr> dateHost := utcHost \<rparr>) exampleBackup"
proof -
  have "isDue berlinAmbient exampleBackup"
       "isDue (berlinAmbient \<lparr> dateHost := utcHost \<rparr>) exampleBackup"
    by (simp_all add: isDue_def berlinAmbient_def exampleBackup_def)
  moreover have "calculateNextDueDate berlinHost (rt_nextDueDate exampleBackup)
                   (rt_frequency exampleBackup) = Some ''2024-03-31''"
       "calculateNextDueDate utcHost (rt_nextDueDate exampleBackup)
                   (rt_frequency exampleBackup) = Some ''2024-04-01''"
    by (simp_all add: exampleBackup_def next_berlin_2024_03_31 next_utc_2024_03_31)
  ultimately show ?thesis
    by (simp add: stillDue_def berlinAmbient_def exampleAmbient_def)
qed

subsection \<open>What the result depends on\<close>

lemma mapItems_ambient:
  assumes "clockToday a = clockToday b" and host: "dateHost a = dateHost b"
  shows "(\<forall>k < length (filter (isDue a) rs).
            dateNow a (length n + k) = dateNow b (length n + k)
          \<and> generateId a (length n + k) = generateId b (length n + k))
         \<Longrightarrow> mapItems a n rs = mapItems b n rs"
proof (induction rs arbitrary: n)
  case Nil
  then show ?case by simp
next
  case (Cons r rs)
  have due_eq: "isDue a r = isDue b r"
    using assms by (simp add: isDue_def)
  show ?case
  proof (cases "isDue a r")
    case False
    then have "processItem a n r = Some (n, r)" "processItem b n r = Some (n, r)"
      using due_eq by (simp_all add: processItem_def)
    moreover have "mapItems a n rs = mapItems b n rs"
      using Cons.prems False by (intro Cons.IH) simp
    ultimately show ?thesis by simp
  next
    case True
    from Cons.prems [rule_format, of 0] True
    have draw: "dateNow a (length n) = dateNow b (length n)"
               "generateId a (length n) = generateId b (length n)"
      by simp_all
    then have tx: "newTx a (length n) r = newTx b (length n) r"
      by (simp add: newTx_def)
    have step: "processItem a n r = processItem b n r"
      using True due_eq tx host by (simp add: processItem_def split: option.splits)
    show ?thesis
    proof (cases "processItem a n r")
      case None
      with step show ?thesis by simp
    next
      case (Some p)
      obtain n1 u where p: "p = (n1, u)" by (cases p)
      have n1: "length n1 = Suc (length n)"
        using Some p True by (auto simp: processItem_def split: option.splits)
      have "mapItems a n1 rs = mapItems b n1 rs"
      proof (intro Cons.IH allI impI)
        fix k assume "k < length (filter (isDue a) rs)"
        then have "Suc k < length (filter (isDue a) (r # rs))"
          using True by simp
        from Cons.prems [rule_format, OF this]
        show "dateNow a (length n1 + k) = dateNow b (length n1 + k)
            \<and> generateId a (length n1 + k) = generateId b (length n1 + k)"
          by (simp add: n1)
      qed
      with Some p step show ?thesis by simp
    qed
  qed
qed

text \<open>
  Claim C3, as amended. \<open>processDueRecurringTransactions\<close> has no parameter for the
  current date. Besides its arguments it reads the day from the system clock; for each
  transaction it emits it reads \<^verbatim>\<open>Date.now()\<close> and draws an id from the random
  generator; and to move a due rule on it goes through the host's \<^verbatim>\<open>Date\<close>, whose
  parser and whose time zone decide the new due date. Its result is determined by the
  rule list together with these reads: two calls on the same rules that see the same
  day, the same \<^verbatim>\<open>Date\<close> of the host, and the same clock values and ids for as many
  transactions as are due, return the same transactions and the same rules, whatever
  the transaction lists they are given.
\<close>

theorem engine_determined_by_ambient:
  assumes "clockToday a = clockToday b"
      and "dateHost a = dateHost b"
      and "\<forall>k < length (filter (isDue a) recurringList).
             dateNow a k = dateNow b k \<and> generateId a k = generateId b k"
  shows "processDueRecurringTransactions a recurringList currentTransactions
           = processDueRecurringTransactions b recurringList currentTransactions'"
  using mapItems_ambient [OF assms(1) assms(2), of recurringList "[]"] assms(3)
  by (simp add: processDueRecurringTransactions_def)

text \<open>
  Claim C3 as it is stated, that the result is determined by the two arguments, fails:
  the same rule list and the same transaction list give a transaction when the clock
  shows 2024-03-15 and none when it shows 2023-12-31.
\<close>

theorem engine_reads_clock_counterexample:
  "processDueRecurringTransactions exampleAmbient [exampleRent] []
     \<noteq> processDueRecurringTransactions (exampleAmbient \<lparr> clockToday := ''2023-12-31'' \<rparr>) [exampleRent] []"
proof -
  have "processDueRecurringTransactions (exampleAmbient \<lparr> clockToday := ''2023-12-31'' \<rparr>) [exampleRent] []
          = Some ([], [exampleRent])"
    by (simp add: processDueRecurringTransactions_def processItem_def isDue_def exampleRent_def)
  with first_run_rent show ?thesis by simp
qed

text \<open>
  The time zone is one of the reads. The same rule list on the same day, with the same
  clock values and ids, comes back with the lease rule due on 2024-04-01 from a host in
  UTC and due on 2024-03-29 from a host in New York.
\<close>

lemma engine_reads_zone:
  "processDueRecurringTransactions exampleAmbient [exampleLease] []
     = Some ([newTx exampleAmbient 0 exampleLease], [advance exampleLease ''2024-04-01''])
   \<and> processDueRecurringTransactions (exampleAmbient \<lparr> dateHost := newYorkHost \<rparr>) [exampleLease] []
     = Some ([newTx exampleAmbient 0 exampleLease], [advance exampleLease ''2024-03-29''])"
proof -
  have "isDue exampleAmbient exampleLease"
       "isDue (exampleAmbient \<lparr> dateHost := newYorkHost \<rparr>) exampleLease"
    by (simp_all add: isDue_def exampleAmbient_def exampleLease_def)
  moreover have "calculateNextDueDate utcHost (rt_nextDueDate exampleLease)
                   (rt_frequency exampleLease) = Some ''2024-04-01''"
       "calculateNextDueDate newYorkHost (rt_nextDueDate exampleLease)
                   (rt_frequency exampleLease) = Some ''2024-03-29''"
    by (simp_all add: exampleLease_def next_utc_2024_03_01 next_newYork_2024_03_01)
  ultimately show ?thesis
    by (simp add: processDueRecurringTransactions_def processItem_def exampleAmbient_host)
       (simp add: newTx_def)
qed

text \<open>
  A call that sees the same day, host and first draw as the example call, and then
  other clock values, on another transaction list: the same result.
\<close>

theorem engine_determined_by_ambient_witness:
  "processDueRecurringTransactions (exampleAmbient \<lparr> dateNow := (\<lambda>k. if k = 0 then 1710500000000 else 7) \<rparr>)
       [exampleGym, exampleRent] [newTx exampleAmbient 0 exampleRent]
     = Some ([newTx exampleAmbient 0 exampleRent], [exampleGym, advance exampleRent ''2024-02-01''])"
proof -
  let ?b = "exampleAmbient \<lparr> dateNow := (\<lambda>k. if k = 0 then 1710500000000 else 7) \<rparr>"
  have today: "clockToday exampleAmbient = clockToday ?b" by simp
  have host: "dateHost exampleAmbient = dateHost ?b" by simp
  have draws: "\<forall>k < length (filter (isDue exampleAmbient) [exampleGym, exampleRent]).
                 dateNow exampleAmbient k = dateNow ?b k \<and> generateId exampleAmbient k = generateId ?b k"
    by (simp add: exampleGym_not_due exampleRent_due) (simp add: exampleAmbient_def)
  from engine_determined_by_ambient [OF today host draws, of "[]" "[newTx exampleAmbient 0 exampleRent]"] first_run
  show ?thesis by simp
qed

section \<open>The account tree\<close>

subsection \<open>The path of an account\<close>

lemma getAccountPath_loop_walk:
  "getAccountPath_loop allAccounts path current depth =
     (foldl (\<lambda>p a. acc_name a @ '':'' @ p) path (ancestorsUpTo (20 - depth) allAccounts current),
      depth + length (ancestorsUpTo (20 - depth) allAccounts current))"
proof (induction allAccounts path current depth rule: getAccountPath_loop.induct)
  case (1 allAccounts path current depth)
  note unfold = getAccountPath_loop.simps [of allAccounts path current depth]
  show ?case
  proof (cases "truthy (acc_parentId current) \<and> depth < 20")
    case False
    then show ?thesis
      by (cases "20 - depth") (auto simp: unfold)
  next
    case True
    then obtain n where n: "20 - depth = Suc n" "20 - (depth + 1) = n"
      by (cases "20 - depth") auto
    show ?thesis
    proof (cases "find (\<lambda>a. Some (acc_id a) = acc_parentId current) allAccounts")
      case None
      with True n show ?thesis by (simp add: unfold)
    next
      case (Some parent)
      from "1.IH" [OF True Some] True Some n show ?thesis
        by (simp add: unfold)
    qed
  qed
qed

lemma foldl_joinNames:
  "ns \<noteq> [] \<Longrightarrow>
     foldl (\<lambda>p a. acc_name a @ '':'' @ p) (joinNames ns) chain
       = joinNames (map acc_name (rev chain) @ ns)"
proof (induction chain arbitrary: ns)
  case Nil
  then show ?case by simp
next
  case (Cons c cs)
  from Cons.prems obtain x xs where ns: "ns = x # xs" by (cases ns) auto
  have "acc_name c @ '':'' @ joinNames ns = joinNames (acc_name c # ns)"
    by (simp add: ns)
  then have "foldl (\<lambda>p a. acc_name a @ '':'' @ p) (joinNames ns) (c # cs)
               = foldl (\<lambda>p a. acc_name a @ '':'' @ p) (joinNames (acc_name c # ns)) cs"
    by simp
  also have "\<dots> = joinNames (map acc_name (rev cs) @ acc_name c # ns)"
    by (rule Cons.IH) simp
  finally show ?case by simp
qed

lemma length_ancestorsUpTo: "length (ancestorsUpTo n allAccounts current) \<le> n"
  by (induction n arbitrary: current) (auto split: option.splits)

text \<open>
  Claim C8. For every account and every account list, with a cycle among the
  \<open>parentId\<close>s or without, \<open>getAccountPath\<close> returns (the loop is a total function:
  its counter \<open>depth\<close> bounds it). The loop takes \<open>depth\<close> steps, at most 20, one
  for each ancestor it finds within the first 20, and the result is the names of
  these ancestors and of the account joined with \<^verbatim>\<open>:\<close>, the farthest ancestor
  first. When the ceiling of 20 stops the walk the result is the path so far.
\<close>

theorem getAccountPath_bounded:
  "getAccountPath account allAccounts
     = joinNames (map acc_name (rev (ancestorsUpTo 20 allAccounts account) @ [account]))
   \<and> snd (getAccountPath_loop allAccounts (acc_name account) account 0)
       = length (ancestorsUpTo 20 allAccounts account)
   \<and> length (ancestorsUpTo 20 allAccounts account) \<le> 20"
proof -
  have "foldl (\<lambda>p a. acc_name a @ '':'' @ p) (joinNames [acc_name account])
          (ancestorsUpTo 20 allAccounts account)
        = joinNames (map acc_name (rev (ancestorsUpTo 20 allAccounts account)) @ [acc_name account])"
    by (rule foldl_joinNames) simp
  then show ?thesis
    by (simp add: getAccountPath_def getAccountPath_loop_walk length_ancestorsUpTo)
qed

text \<open>
  An account that is its own parent has the path of 21 names that the ceiling leaves;
  the account \<open>B\<close> under \<open>A\<close> has the path \<^verbatim>\<open>Assets:Bank\<close>.
\<close>

lemma ancestors_accountLoop:
  "ancestorsUpTo n [accountLoop] accountLoop = replicate n accountLoop"
  by (induction n) (simp_all add: truthy_def accountLoop_def)

lemma ancestors_accountB:
  "ancestorsUpTo (Suc n) [accountA, accountB] accountB = [accountA]"
  by (cases n) (simp_all add: truthy_def accountA_def accountB_def)

lemma joinNames_accountLoop:
  "joinNames (map acc_name (rev (replicate 20 accountLoop) @ [accountLoop]))
     = ''Loop:Loop:Loop:Loop:Loop:Loop:Loop:Loop:Loop:Loop:Loop:Loop:Loop:Loop:Loop:Loop:Loop:Loop:Loop:Loop:Loop''"
  by code_simp

theorem getAccountPath_bounded_witness:
  "getAccountPath accountLoop [accountLoop]
     = ''Loop:Loop:Loop:Loop:Loop:Loop:Loop:Loop:Loop:Loop:Loop:Loop:Loop:Loop:Loop:Loop:Loop:Loop:Loop:Loop:Loop''
   \<and> snd (getAccountPath_loop [accountLoop] (acc_name accountLoop) accountLoop 0) = 20
   \<and> getAccountPath accountB [accountA, accountB] = ''Assets:Bank''"
proof -
  have "ancestorsUpTo 20 [accountA, accountB] accountB = [accountA]"
    using ancestors_accountB [of 19] by simp
  with getAccountPath_bounded [of accountB "[accountA, accountB]"]
  have "getAccountPath accountB [accountA, accountB] = ''Assets:Bank''"
    by (simp add: accountA_def accountB_def)
  moreover
  from getAccountPath_bounded [of accountLoop "[accountLoop]"]
  have "getAccountPath accountLoop [accountLoop]
     = ''Loop:Loop:Loop:Loop:Loop:Loop:Loop:Loop:Loop:Loop:Loop:Loop:Loop:Loop:Loop:Loop:Loop:Loop:Loop:Loop:Loop''
    \<and> snd (getAccountPath_loop [accountLoop] (acc_name accountLoop) accountLoop 0) = 20"
    by (simp only: ancestors_accountLoop joinNames_accountLoop length_replicate)
  ultimately show ?thesis by simp
qed

subsection \<open>The descendants of an account\<close>

lemma parentEdges_iff:
  "(c, p) \<in> set (parentEdges allAccounts)
     \<longleftrightarrow> (\<exists>a \<in> set allAccounts. acc_id a = c \<and> acc_parentId a = Some p)"
  by (force simp: parentEdges_def split: option.splits)

lemma children_ids:
  "set (map acc_id (filter (\<lambda>a. acc_parentId a = Some x) allAccounts))
     = {c. (c, x) \<in> set (parentEdges allAccounts)}"
  by (auto simp: parentEdges_iff)

lemma descendants_unfold:
  "descendants allAccounts x
     = insert x (\<Union>c \<in> {c. (c, x) \<in> set (parentEdges allAccounts)}. descendants allAccounts c)"
proof -
  let ?R = "set (parentEdges allAccounts)"
  have "(y, x) \<in> ?R\<^sup>* \<longleftrightarrow> y = x \<or> (\<exists>c. (c, x) \<in> ?R \<and> (y, c) \<in> ?R\<^sup>*)" for y
    by (metis rtrancl.simps)
  then show ?thesis
    by (auto simp: descendants_def)
qed

lemma loop_pops_list:
  assumes each: "\<And>c stack result. c \<in> set cs \<Longrightarrow>
            getDescendantAccountIds_loop allAccounts (stack @ [c]) result
              = getDescendantAccountIds_loop allAccounts stack (result \<union> descendants allAccounts c)"
  shows "getDescendantAccountIds_loop allAccounts (stack @ cs) result
           = getDescendantAccountIds_loop allAccounts stack
               (result \<union> (\<Union>c \<in> set cs. descendants allAccounts c))"
  using each
proof (induction cs arbitrary: result rule: rev_induct)
  case Nil
  then show ?case by simp
next
  case (snoc c cs)
  have "getDescendantAccountIds_loop allAccounts (stack @ cs @ [c]) result
          = getDescendantAccountIds_loop allAccounts ((stack @ cs) @ [c]) result"
    by simp
  also have "\<dots> = getDescendantAccountIds_loop allAccounts (stack @ cs)
                     (result \<union> descendants allAccounts c)"
    by (rule snoc.prems) simp
  also have "\<dots> = getDescendantAccountIds_loop allAccounts stack
                     ((result \<union> descendants allAccounts c)
                        \<union> (\<Union>c \<in> set cs. descendants allAccounts c))"
    by (rule snoc.IH) (simp add: snoc.prems)
  finally show ?case
    by (simp add: Un_ac)
qed

lemma loop_pops:
  assumes "acyclic (set (parentEdges allAccounts))"
  shows "getDescendantAccountIds_loop allAccounts (stack @ [x]) result
           = getDescendantAccountIds_loop allAccounts stack (result \<union> descendants allAccounts x)"
proof -
  let ?R = "set (parentEdges allAccounts)"
  have "wf ?R"
    using assms by (simp add: finite_acyclic_wf)
  then show ?thesis
  proof (induction x arbitrary: stack result rule: wf_induct_rule)
    case (less x)
    let ?cs = "map acc_id (filter (\<lambda>a. acc_parentId a = Some x) allAccounts)"
    have "getDescendantAccountIds_loop allAccounts (stack @ [x]) result
            = getDescendantAccountIds_loop allAccounts (stack @ ?cs) (insert x result)"
      by (subst getDescendantAccountIds_loop.simps) simp
    also have "\<dots> = getDescendantAccountIds_loop allAccounts stack
                       (insert x result \<union> (\<Union>c \<in> set ?cs. descendants allAccounts c))"
    proof (rule loop_pops_list)
      fix c stack' result'
      assume "c \<in> set ?cs"
      then have "(c, x) \<in> ?R"
        using children_ids [of x allAccounts] by blast
      then show "getDescendantAccountIds_loop allAccounts (stack' @ [c]) result'
              = getDescendantAccountIds_loop allAccounts stack' (result' \<union> descendants allAccounts c)"
        by (rule less.IH)
    qed
    also have "insert x result \<union> (\<Union>c \<in> set ?cs. descendants allAccounts c)
                 = result \<union> descendants allAccounts x"
      by (subst (2) descendants_unfold) (simp only: children_ids, blast)
    finally show ?case .
  qed
qed

lemma getDescendantAccountIds_acyclic:
  assumes "acyclic (set (parentEdges allAccounts))"
  shows "getDescendantAccountIds rootId allAccounts = Some (descendants allAccounts rootId)"
proof -
  have "getDescendantAccountIds rootId allAccounts
          = getDescendantAccountIds_loop allAccounts ([] @ [rootId]) {}"
    by (simp add: getDescendantAccountIds_def)
  also have "\<dots> = getDescendantAccountIds_loop allAccounts [] ({} \<union> descendants allAccounts rootId)"
    using assms by (rule loop_pops)
  also have "\<dots> = Some (descendants allAccounts rootId)"
    by (subst getDescendantAccountIds_loop.simps) simp
  finally show ?thesis .
qed

text \<open>
  Claim C7. For an account list whose \<open>parentId\<close> relation has no cycle and for every
  \<open>rootId\<close>, \<open>getDescendantAccountIds\<close> returns; the set it returns holds
  \<open>rootId\<close>, and for every account \<open>c\<close> of the list with \<open>parentId = rootId\<close> the
  call on \<open>c.id\<close> returns too, a subset of it.
\<close>

theorem getDescendantAccountIds_inclusive:
  assumes "acyclic (set (parentEdges allAccounts))"
  shows "\<exists>ids. getDescendantAccountIds rootId allAccounts = Some ids
             \<and> rootId \<in> ids
             \<and> (\<forall>c \<in> set allAccounts. acc_parentId c = Some rootId \<longrightarrow>
                  (\<exists>ids'. getDescendantAccountIds (acc_id c) allAccounts = Some ids'
                          \<and> ids' \<subseteq> ids))"
proof -
  let ?R = "set (parentEdges allAccounts)"
  have root: "rootId \<in> descendants allAccounts rootId"
    by (simp add: descendants_def)
  have "descendants allAccounts (acc_id c) \<subseteq> descendants allAccounts rootId"
    if "c \<in> set allAccounts" "acc_parentId c = Some rootId" for c
  proof -
    from that have "(acc_id c, rootId) \<in> ?R"
      by (auto simp: parentEdges_iff)
    then show ?thesis
      by (auto simp: descendants_def intro: rtrancl_into_rtrancl)
  qed
  then show ?thesis
    using root by (simp add: getDescendantAccountIds_acyclic [OF assms])
qed

text \<open>
  On the accounts \<open>A\<close> and \<open>B\<close>, \<open>B\<close> under \<open>A\<close>.
\<close>

lemma acyclic_example: "acyclic (set (parentEdges [accountA, accountB]))"
proof -
  have "acyclic ({} :: (string \<times> string) set)"
    by (simp add: acyclic_def)
  then show ?thesis
    by (simp add: parentEdges_def accountA_def accountB_def)
qed

theorem getDescendantAccountIds_inclusive_witness:
  "getDescendantAccountIds ''A'' [accountA, accountB] = Some {''A'', ''B''}
   \<and> getDescendantAccountIds ''B'' [accountA, accountB] = Some {''B''}
   \<and> ''A'' \<in> {''A'', ''B''} \<and> {''B''} \<subseteq> {''A'', ''B''}
   \<and> acc_parentId accountB = Some ''A''"
proof -
  have a: "getDescendantAccountIds ''A'' [accountA, accountB] = Some {''A'', ''B''}"
    by (simp add: getDescendantAccountIds_def getDescendantAccountIds_loop.simps
          accountA_def accountB_def insert_commute)
  have b: "getDescendantAccountIds ''B'' [accountA, accountB] = Some {''B''}"
    by (simp add: getDescendantAccountIds_def getDescendantAccountIds_loop.simps
          accountA_def accountB_def)
  from getDescendantAccountIds_inclusive [OF acyclic_example, of "''A''"] a b
  show ?thesis
    by (simp add: accountB_def)
qed


text \<open>
  The hypothesis is needed: on an account that is its own parent the loop pushes the
  id it has just popped, and never returns.
\<close>

lemma getDescendantAccountIds_cycle:
  "getDescendantAccountIds ''L'' [accountLoop] = None"
proof -
  have "\<not> (allAccounts = [accountLoop] \<and> stack = [''L''])"
    if "getDescendantAccountIds_loop allAccounts stack result = Some ids"
    for allAccounts :: "int Account list" and stack result ids
    using that
  proof (induction allAccounts stack result ids
           rule: getDescendantAccountIds_loop.raw_induct [rotated 1, consumes 1])
    case (1 self allAccounts stack result ids)
    show ?case
    proof
      assume "allAccounts = [accountLoop] \<and> stack = [''L'']"
      with "1.hyps" have "self [accountLoop] [''L''] (insert ''L'' result) = Some ids"
        by (simp add: accountLoop_def Let_def)
      from "1.IH" [OF this] show False by simp
    qed
  qed
  then show ?thesis
    by (cases "getDescendantAccountIds ''L'' [accountLoop]") (auto simp: getDescendantAccountIds_def)
qed

section \<open>Balances\<close>

subsection \<open>The loop over the children\<close>

lemma foldl_total_None:
  "foldl (\<lambda>total child. case total of None \<Rightarrow> None
            | Some t \<Rightarrow> (case f child of None \<Rightarrow> None | Some b \<Rightarrow> Some (t + b)))
         None cs = None"
  by (induction cs) simp_all

lemma foldl_total_Some:
  "foldl (\<lambda>total child. case total of None \<Rightarrow> None
            | Some t \<Rightarrow> (case f child of None \<Rightarrow> None | Some b \<Rightarrow> Some (t + b)))
         (Some t) cs
       = (if \<forall>c \<in> set cs. f c \<noteq> None then Some (foldl (+) t (map (\<lambda>c. the (f c)) cs)) else None)"
proof (induction cs arbitrary: t)
  case Nil
  then show ?case by simp
next
  case (Cons c cs)
  show ?case
  proof (cases "f c")
    case None
    then show ?thesis by (simp add: foldl_total_None)
  next
    case (Some b)
    then show ?thesis
      by (simp add: Cons.IH)
  qed
qed

text \<open>
  A call with room on the stack returns when the calls for the children return, and
  then the own balance with the balances of the children added to it one after another.
\<close>

lemma calculateTreeBalance_Suc:
  "calculateTreeBalance (Suc room) account allAccounts transactions
     = (if \<forall>c \<in> set (childrenOf account allAccounts).
              calculateTreeBalance room c allAccounts transactions \<noteq> None
        then Some (foldl (+) (calculateAccountBalance (acc_id account) transactions)
                     (map (\<lambda>c. the (calculateTreeBalance room c allAccounts transactions))
                          (childrenOf account allAccounts)))
        else None)"
  by (simp only: calculateTreeBalance.simps foldl_total_Some)

text \<open>
  When the addition is exact, that is associative with the unit 0, adding the numbers
  of a list to a number one after another is adding their sum.
\<close>

lemma foldl_plus_exact:
  fixes a :: "'n::monoid_add"
  shows "foldl (+) a xs = a + sum_list xs"
  by (induction xs arbitrary: a) (simp_all add: add.assoc)

subsection \<open>More room on the stack changes no result\<close>

lemma calculateTreeBalance_step:
  "calculateTreeBalance room account allAccounts transactions = Some v
     \<Longrightarrow> calculateTreeBalance (Suc room) account allAccounts transactions = Some v"
proof (induction room arbitrary: account v)
  case 0
  then show ?case by simp
next
  case (Suc room)
  let ?cs = "childrenOf account allAccounts"
  from Suc.prems have
    all: "\<forall>c \<in> set ?cs. calculateTreeBalance room c allAccounts transactions \<noteq> None" and
    v: "v = foldl (+) (calculateAccountBalance (acc_id account) transactions)
              (map (\<lambda>c. the (calculateTreeBalance room c allAccounts transactions)) ?cs)"
    by (auto simp: calculateTreeBalance_Suc split: if_splits)
  have same: "calculateTreeBalance (Suc room) c allAccounts transactions
                = Some (the (calculateTreeBalance room c allAccounts transactions))"
    if "c \<in> set ?cs" for c
    using all that by (intro Suc.IH) auto
  have sums: "map (\<lambda>c. the (calculateTreeBalance (Suc room) c allAccounts transactions)) ?cs
          = map (\<lambda>c. the (calculateTreeBalance room c allAccounts transactions)) ?cs"
    by (rule map_cong) (simp_all add: same)
  have "\<forall>c \<in> set ?cs. calculateTreeBalance (Suc room) c allAccounts transactions \<noteq> None"
    by (simp add: same)
  then have "calculateTreeBalance (Suc (Suc room)) account allAccounts transactions
          = Some (foldl (+) (calculateAccountBalance (acc_id account) transactions)
                    (map (\<lambda>c. the (calculateTreeBalance (Suc room) c allAccounts transactions)) ?cs))"
    by (simp add: calculateTreeBalance_Suc [of "Suc room"])
  then show ?case
    by (simp only: sums v)
qed

lemma calculateTreeBalance_mono:
  "room \<le> room' \<Longrightarrow> calculateTreeBalance room account allAccounts transactions = Some v
     \<Longrightarrow> calculateTreeBalance room' account allAccounts transactions = Some v"
  by (induction room' rule: dec_induct) (simp_all add: calculateTreeBalance_step)

lemma room_for_all:
  assumes "\<forall>c \<in> set cs. \<exists>room v. calculateTreeBalance room c allAccounts transactions = Some v"
  shows "\<exists>room. \<forall>c \<in> set cs. \<exists>v. calculateTreeBalance room c allAccounts transactions = Some v"
  using assms
proof (induction cs)
  case Nil
  then show ?case by simp
next
  case (Cons c cs)
  then obtain r1 v1 where c: "calculateTreeBalance r1 c allAccounts transactions = Some v1"
    by auto
  from Cons obtain r2 where
    cs: "\<forall>c \<in> set cs. \<exists>v. calculateTreeBalance r2 c allAccounts transactions = Some v"
    by auto
  have "\<exists>v. calculateTreeBalance (max r1 r2) c' allAccounts transactions = Some v"
    if "c' \<in> set (c # cs)" for c'
  proof (cases "c' = c")
    case True
    have "calculateTreeBalance (max r1 r2) c allAccounts transactions = Some v1"
      using _ c by (rule calculateTreeBalance_mono) simp
    with True show ?thesis by simp
  next
    case False
    with that cs obtain v where "calculateTreeBalance r2 c' allAccounts transactions = Some v"
      by auto
    with calculateTreeBalance_mono [of r2 "max r1 r2" c' allAccounts transactions v]
    show ?thesis by simp
  qed
  then show ?case by blast
qed

subsection \<open>Without a cycle the recursion ends\<close>

lemma calculateTreeBalance_returns:
  assumes "acyclic (set (parentEdges allAccounts))"
  shows "\<exists>room v. calculateTreeBalance room account allAccounts transactions = Some v"
proof -
  let ?R = "set (parentEdges allAccounts)"
  have "wf ?R"
    using assms by (simp add: finite_acyclic_wf)
  then have "\<forall>account. acc_id account = x \<longrightarrow>
               (\<exists>room v. calculateTreeBalance room account allAccounts transactions = Some v)" for x
  proof (induction x rule: wf_induct_rule)
    case (less x)
    show ?case
    proof (intro allI impI)
      fix account :: "'a Account"
      assume x: "acc_id account = x"
      let ?cs = "childrenOf account allAccounts"
      have "\<forall>c \<in> set ?cs. \<exists>room v. calculateTreeBalance room c allAccounts transactions = Some v"
      proof
        fix c assume "c \<in> set ?cs"
        then have "(acc_id c, x) \<in> ?R"
          using x by (auto simp: childrenOf_def parentEdges_iff)
        from less.IH [OF this] show "\<exists>room v. calculateTreeBalance room c allAccounts transactions = Some v"
          by simp
      qed
      from room_for_all [OF this] obtain room where
        "\<forall>c \<in> set ?cs. \<exists>v. calculateTreeBalance room c allAccounts transactions = Some v" ..
      then have "\<exists>v. calculateTreeBalance (Suc room) account allAccounts transactions = Some v"
        by (subst calculateTreeBalance_Suc) auto
      then show "\<exists>room v. calculateTreeBalance room account allAccounts transactions = Some v" ..
    qed
  qed
  then show ?thesis by simp
qed

subsection \<open>The flattened balances\<close>

lemma snd_filter_zip_map:
  "map snd (filter (\<lambda>(a, e). P a) (zip xs (map g xs))) = map g (filter P xs)"
  by (induction xs) simp_all

lemma getFlattenedBalances_map_Some:
  assumes "\<forall>a \<in> set accs. calculateTreeBalance room a accounts transactions = Some (bal a)"
  shows "getFlattenedBalances_map room accs accounts transactions
           = Some (map (\<lambda>a. flattened a (bal a)) accs)"
  using assms by (induction accs) simp_all


text \<open>
  Claim C4, as amended. For every account list whose \<open>parentId\<close> relation has no
  cycle, and every transaction list, \<open>getFlattenedBalances\<close> returns whenever the
  stack has room enough, and always the same list: one entry for each account, in
  the order of the accounts. The balance of an entry is \<open>calculateAccountBalance\<close>
  of the account with the balances of the entries of its direct children added to it
  one after another, in the order of the list: \<open>((own + c1) + c2) + ...\<close> in the
  addition of the host's numbers, whatever that addition is. For a leaf, an account
  that no account names as its parent, the balance is \<open>calculateAccountBalance\<close> of
  the account. (An equation here says that both sides are the same number.)
\<close>

theorem flattened_balances_identity:
  fixes accounts :: "('n::{plus,zero}) Account list"
  assumes "acyclic (set (parentEdges accounts))"
  shows "\<exists>room entries.
           (\<forall>room' \<ge> room. getFlattenedBalances room' accounts transactions = Some entries)
         \<and> length entries = length accounts
         \<and> (\<forall>i < length accounts.
               fb_id (entries ! i) = acc_id (accounts ! i)
             \<and> fb_balance (entries ! i)
                 = foldl (+) (calculateAccountBalance (acc_id (accounts ! i)) transactions)
                     (map fb_balance (childEntries (accounts ! i) accounts entries))
             \<and> ((\<forall>a \<in> set accounts. acc_parentId a \<noteq> Some (acc_id (accounts ! i)))
                  \<longrightarrow> fb_balance (entries ! i)
                        = calculateAccountBalance (acc_id (accounts ! i)) transactions))"
proof -
  have "\<forall>a \<in> set accounts. \<exists>room v. calculateTreeBalance room a accounts transactions = Some v"
    using assms by (simp add: calculateTreeBalance_returns)
  from room_for_all [OF this] obtain room0 where
    room0: "\<forall>a \<in> set accounts. \<exists>v. calculateTreeBalance room0 a accounts transactions = Some v" ..
  define bal where "bal a = the (calculateTreeBalance room0 a accounts transactions)" for a
  have at: "calculateTreeBalance r a accounts transactions = Some (bal a)"
    if "a \<in> set accounts" "room0 \<le> r" for a r
  proof -
    from room0 that(1) have "calculateTreeBalance room0 a accounts transactions = Some (bal a)"
      by (auto simp: bal_def)
    with that(2) show ?thesis by (rule calculateTreeBalance_mono)
  qed
  have children: "set (childrenOf a accounts) \<subseteq> set accounts" for a
    by (auto simp: childrenOf_def)
  have identity: "bal a = foldl (+) (calculateAccountBalance (acc_id a) transactions)
                            (map bal (childrenOf a accounts))"
    if a: "a \<in> set accounts" for a
  proof -
    have cs: "\<forall>c \<in> set (childrenOf a accounts).
                calculateTreeBalance room0 c accounts transactions = Some (bal c)"
      using children [of a] at by auto
    then have sums: "map (\<lambda>c. the (calculateTreeBalance room0 c accounts transactions))
                         (childrenOf a accounts)
                 = map bal (childrenOf a accounts)"
      by (intro map_cong) simp_all
    from cs have "calculateTreeBalance (Suc room0) a accounts transactions
            = Some (foldl (+) (calculateAccountBalance (acc_id a) transactions)
                      (map (\<lambda>c. the (calculateTreeBalance room0 c accounts transactions))
                           (childrenOf a accounts)))"
      by (simp add: calculateTreeBalance_Suc)
    then have "calculateTreeBalance (Suc room0) a accounts transactions
            = Some (foldl (+) (calculateAccountBalance (acc_id a) transactions)
                      (map bal (childrenOf a accounts)))"
      by (simp only: sums)
    moreover have "calculateTreeBalance (Suc room0) a accounts transactions = Some (bal a)"
      using a by (intro at) simp_all
    ultimately show ?thesis by simp
  qed
  let ?entries = "map (\<lambda>a. flattened a (bal a)) accounts"
  have run: "\<forall>room' \<ge> room0. getFlattenedBalances room' accounts transactions = Some ?entries"
    by (simp add: getFlattenedBalances_def getFlattenedBalances_map_Some at)
  have entry: "fb_id (?entries ! i) = acc_id (accounts ! i)
             \<and> fb_balance (?entries ! i)
                 = foldl (+) (calculateAccountBalance (acc_id (accounts ! i)) transactions)
                     (map fb_balance (childEntries (accounts ! i) accounts ?entries))
             \<and> ((\<forall>a \<in> set accounts. acc_parentId a \<noteq> Some (acc_id (accounts ! i)))
                  \<longrightarrow> fb_balance (?entries ! i)
                        = calculateAccountBalance (acc_id (accounts ! i)) transactions)"
    if i: "i < length accounts" for i
  proof -
    let ?a = "accounts ! i"
    have mem: "?a \<in> set accounts" using i by simp
    have "childEntries ?a accounts ?entries
            = map (\<lambda>a. flattened a (bal a)) (childrenOf ?a accounts)"
      by (simp add: childEntries_def childrenOf_def snd_filter_zip_map)
    then have sum: "map fb_balance (childEntries ?a accounts ?entries)
                      = map bal (childrenOf ?a accounts)"
      by (simp add: comp_def flattened_def)
    have leaf: "childrenOf ?a accounts = []"
      if "\<forall>a \<in> set accounts. acc_parentId a \<noteq> Some (acc_id ?a)"
      using that by (simp add: childrenOf_def filter_empty_conv)
    have "fb_balance (?entries ! i) = bal ?a"
      using i by (simp add: flattened_def)
    then have whole: "fb_balance (?entries ! i)
                 = foldl (+) (calculateAccountBalance (acc_id ?a) transactions)
                     (map fb_balance (childEntries ?a accounts ?entries))"
      using identity [OF mem] by (simp only: sum)
    have "fb_balance (?entries ! i) = calculateAccountBalance (acc_id ?a) transactions"
      if "\<forall>a \<in> set accounts. acc_parentId a \<noteq> Some (acc_id ?a)"
      using leaf [OF that] \<open>fb_balance (?entries ! i) = bal ?a\<close> identity [OF mem] by simp
    moreover have "fb_id (?entries ! i) = acc_id ?a"
      using i by (simp add: flattened_def)
    ultimately show ?thesis
      using whole by blast
  qed
  have len: "length ?entries = length accounts"
    by simp
  have entries: "\<forall>i < length accounts.
               fb_id (?entries ! i) = acc_id (accounts ! i)
             \<and> fb_balance (?entries ! i)
                 = foldl (+) (calculateAccountBalance (acc_id (accounts ! i)) transactions)
                     (map fb_balance (childEntries (accounts ! i) accounts ?entries))
             \<and> ((\<forall>a \<in> set accounts. acc_parentId a \<noteq> Some (acc_id (accounts ! i)))
                  \<longrightarrow> fb_balance (?entries ! i)
                        = calculateAccountBalance (acc_id (accounts ! i)) transactions)"
    by (intro allI impI) (rule entry)
  show ?thesis
    by (rule exI [of _ room0], rule exI [of _ ?entries]) (intro conjI run len entries)
qed

text \<open>
  The order of the additions is part of the result. With the floating-point amounts
  0.1 on an account and 0.2 and 0.3 on its two children the balance of the account is
  \<open>(0.1 + 0.2) + 0.3\<close>, which the host writes \<^verbatim>\<open>0.6000000000000001\<close>, and not the
  own balance plus the sum of the balances of the children, \<open>0.1 + (0.2 + 0.3)\<close>,
  which it writes \<^verbatim>\<open>0.6\<close>.
\<close>

lemma binary64_sums:
  "(tenth + fifth) + threeTenths = sixTenthsAndABit"
  "tenth + (fifth + threeTenths) = sixTenths"
  "0 + tenth = tenth" "0 + fifth = fifth" "0 + threeTenths = threeTenths"
  by code_simp+

lemma flattened_balances_rounding:
  "getFlattenedBalances 2 [accountFood, accountBread, accountMilk] [txSmall]
     = Some [\<lparr> fb_id = ''F'', fb_name = ''Food'', fb_type = EXPENSE,
               fb_balance = sixTenthsAndABit, fb_budget = 0 \<rparr>,
             \<lparr> fb_id = ''F1'', fb_name = ''Bread'', fb_type = EXPENSE,
               fb_balance = fifth, fb_budget = 0 \<rparr>,
             \<lparr> fb_id = ''F2'', fb_name = ''Milk'', fb_type = EXPENSE,
               fb_balance = threeTenths, fb_budget = 0 \<rparr>]
   \<and> calculateAccountBalance ''F'' [txSmall] = tenth
   \<and> calculateAccountBalance ''F'' [txSmall] + (fifth + threeTenths) = sixTenths
   \<and> sixTenths \<noteq> sixTenthsAndABit"
proof -
  have own: "calculateAccountBalance ''F'' [txSmall] = tenth"
    "calculateAccountBalance ''F1'' [txSmall] = fifth"
    "calculateAccountBalance ''F2'' [txSmall] = threeTenths"
    by (simp_all add: calculateAccountBalance_def txSmall_def binary64_sums)
  have children: "childrenOf accountFood [accountFood, accountBread, accountMilk]
                    = [accountBread, accountMilk]"
    "childrenOf accountBread [accountFood, accountBread, accountMilk] = []"
    "childrenOf accountMilk [accountFood, accountBread, accountMilk] = []"
    by (simp_all add: childrenOf_def accountFood_def accountBread_def accountMilk_def)
  have ids: "acc_id accountFood = ''F''" "acc_id accountBread = ''F1''" "acc_id accountMilk = ''F2''"
    by (simp_all add: accountFood_def accountBread_def accountMilk_def)
  have leaves: "calculateTreeBalance 1 accountBread [accountFood, accountBread, accountMilk] [txSmall]
                  = Some fifth"
    "calculateTreeBalance 1 accountMilk [accountFood, accountBread, accountMilk] [txSmall]
                  = Some threeTenths"
    "calculateTreeBalance 2 accountBread [accountFood, accountBread, accountMilk] [txSmall]
                  = Some fifth"
    "calculateTreeBalance 2 accountMilk [accountFood, accountBread, accountMilk] [txSmall]
                  = Some threeTenths"
    by (simp_all add: eval_nat_numeral calculateTreeBalance_Suc children ids own)
  have root: "calculateTreeBalance 2 accountFood [accountFood, accountBread, accountMilk] [txSmall]
                = Some sixTenthsAndABit"
    using leaves(1,2)
    by (simp add: eval_nat_numeral calculateTreeBalance_Suc children ids own binary64_sums)
  have "sixTenths \<noteq> sixTenthsAndABit"
    by (simp add: sixTenths_def sixTenthsAndABit_def)
  then show ?thesis
    using root leaves(3,4) own
    by (simp add: getFlattenedBalances_def flattened_def binary64_sums
          accountFood_def accountBread_def accountMilk_def)
qed

lemma calculateTreeBalance_accountLoop:
  "calculateTreeBalance room accountLoop [accountLoop] transactions = None"
proof (induction room)
  case 0
  then show ?case by simp
next
  case (Suc room)
  have "childrenOf accountLoop [accountLoop] = [accountLoop]"
    by (simp add: childrenOf_def accountLoop_def)
  with Suc show ?case
    by (simp add: calculateTreeBalance_Suc)
qed

text \<open>
  Claim C4 as it is stated, for every account list, fails on a list with a cycle: for
  an account that is its own parent \<open>calculateTreeBalance\<close> calls itself without end,
  and whatever room the stack has, \<open>getFlattenedBalances\<close> returns no entry.
\<close>

theorem flattened_balances_cycle_counterexample:
  "\<forall>room. getFlattenedBalances room [accountLoop] [depositB] = None"
  by (simp add: getFlattenedBalances_def calculateTreeBalance_accountLoop)

text \<open>
  The scenario of the specification: \<open>A\<close> and its child \<open>B\<close> both get the balance
  100 of the one split on \<open>B\<close>.
\<close>

lemma flattened_example:
  "getFlattenedBalances 2 [accountA, accountB] [depositB]
     = Some [\<lparr> fb_id = ''A'', fb_name = ''Assets'', fb_type = ASSET, fb_balance = 100, fb_budget = 0 \<rparr>,
             \<lparr> fb_id = ''B'', fb_name = ''Bank'', fb_type = ASSET, fb_balance = 100, fb_budget = 50 \<rparr>]"
  by (simp add: getFlattenedBalances_def eval_nat_numeral calculateTreeBalance.simps(2) childrenOf_def
        flattened_def calculateAccountBalance_def accountA_def accountB_def depositB_def)

theorem flattened_balances_identity_witness:
  "\<exists>room. getFlattenedBalances room [accountA, accountB] [depositB]
     = Some [\<lparr> fb_id = ''A'', fb_name = ''Assets'', fb_type = ASSET, fb_balance = 100, fb_budget = 0 \<rparr>,
             \<lparr> fb_id = ''B'', fb_name = ''Bank'', fb_type = ASSET, fb_balance = 100, fb_budget = 50 \<rparr>]
     \<and> calculateAccountBalance ''A'' [depositB] = (0::int)
     \<and> calculateAccountBalance ''B'' [depositB] = (100::int)"
proof -
  from flattened_balances_identity [OF acyclic_example, of "[depositB]"]
  obtain room entries where
    run: "\<forall>room' \<ge> room. getFlattenedBalances room' [accountA, accountB] [depositB] = Some entries"
    by blast
  then have "getFlattenedBalances (max room 2) [accountA, accountB] [depositB] = Some entries"
    by simp
  moreover have "getFlattenedBalances (max room 2) [accountA, accountB] [depositB]
       = Some [\<lparr> fb_id = ''A'', fb_name = ''Assets'', fb_type = ASSET, fb_balance = 100, fb_budget = 0 \<rparr>,
             \<lparr> fb_id = ''B'', fb_name = ''Bank'', fb_type = ASSET, fb_balance = 100, fb_budget = 50 \<rparr>]"
  proof -
    have "getFlattenedBalances_map 2 [accountA, accountB] [accountA, accountB] [depositB]
            = Some [\<lparr> fb_id = ''A'', fb_name = ''Assets'', fb_type = ASSET, fb_balance = 100, fb_budget = 0 \<rparr>,
             \<lparr> fb_id = ''B'', fb_name = ''Bank'', fb_type = ASSET, fb_balance = 100, fb_budget = 50 \<rparr>]"
      using flattened_example by (simp add: getFlattenedBalances_def)
    then have a: "calculateTreeBalance 2 accountA [accountA, accountB] [depositB] = Some 100"
      and b: "calculateTreeBalance 2 accountB [accountA, accountB] [depositB] = Some 100"
      by (auto simp: flattened_def split: option.splits)
    have "calculateTreeBalance (max room 2) accountA [accountA, accountB] [depositB] = Some 100"
      "calculateTreeBalance (max room 2) accountB [accountA, accountB] [depositB] = Some 100"
      using a b by (auto intro: calculateTreeBalance_mono [of 2 "max room 2"])
    then show ?thesis
      by (simp add: getFlattenedBalances_def flattened_def accountA_def accountB_def)
  qed
  moreover have "calculateAccountBalance ''A'' [depositB] = (0::int)"
    "calculateAccountBalance ''B'' [depositB] = (100::int)"
    by (simp_all add: calculateAccountBalance_def depositB_def)
  ultimately show ?thesis
    using run by blast
qed

section \<open>The transaction codec\<close>

subsection \<open>The regular expression on a line without quote characters\<close>

text \<open>
  On a line that holds no quote character and does not begin with a comma the loop of
  \<^verbatim>\<open>regex.exec\<close> ends, and its matches are the texts between the commas: such a
  line with \<open>k\<close> fields gives \<open>k\<close> matches.
\<close>

lemma commaFields_nonempty: "commaFields t \<noteq> []"
  by (induction t) (auto split: list.splits)

lemma fieldMatch_plain:
  assumes "dquote \<notin> set t"
  shows "fieldMatch t = (length (takeWhile (\<lambda>c. c \<noteq> comma) t), takeWhile (\<lambda>c. c \<noteq> comma) t)"
proof -
  have "takeWhile (\<lambda>c. c \<noteq> dquote \<and> c \<noteq> comma) t = takeWhile (\<lambda>c. c \<noteq> comma) t"
    using assms by (intro takeWhile_cong) auto
  moreover have "(case t of [] \<Rightarrow> None | c # cs \<Rightarrow> if c = dquote then quotedBody cs else None) = None"
    using assms by (cases t) auto
  ultimately show ?thesis
    by (simp add: fieldMatch_def Let_def)
qed

lemma commaFields_split:
  "commaFields t = takeWhile (\<lambda>c. c \<noteq> comma) t
     # (case dropWhile (\<lambda>c. c \<noteq> comma) t of [] \<Rightarrow> [] | c # t' \<Rightarrow> commaFields t')"
proof (induction t)
  case Nil
  then show ?case by simp
next
  case (Cons a t)
  then show ?case
    by (cases "commaFields t") (auto simp: commaFields_nonempty)
qed

lemma execLoop_plain_rest:
  assumes "dquote \<notin> set line"
  shows "0 < i \<Longrightarrow> i \<le> length line \<Longrightarrow>
           execLoop line i matches
             = Some (matches @ (case dropWhile (\<lambda>c. c \<noteq> comma) (drop i line) of
                                   [] \<Rightarrow> [] | c # t \<Rightarrow> commaFields t))"
proof (induction "length line - i" arbitrary: i matches rule: less_induct)
  case less
  show ?case
  proof (cases "dropWhile (\<lambda>c. c \<noteq> comma) (drop i line)")
    case Nil
    from less.prems have "regexExec line i = None"
      by (simp add: regexExec_def Nil)
    then show ?thesis
      by (subst execLoop.simps) (simp add: Nil)
  next
    case (Cons c t)
    have suffix: "\<exists>pre. line = pre @ c # t \<and> i \<le> length pre"
    proof -
      have "drop i line = takeWhile (\<lambda>c. c \<noteq> comma) (drop i line) @ c # t"
        using Cons by (metis takeWhile_dropWhile_id)
      then have "line = (take i line @ takeWhile (\<lambda>c. c \<noteq> comma) (drop i line)) @ c # t"
        by (metis append_assoc append_take_drop_id)
      moreover have "i \<le> length (take i line @ takeWhile (\<lambda>c. c \<noteq> comma) (drop i line))"
        using less.prems by simp
      ultimately show ?thesis by blast
    qed
    then obtain pre where line: "line = pre @ c # t" and pre: "i \<le> length pre" by blast
    have tq: "dquote \<notin> set t"
      using assms line by auto
    let ?f = "takeWhile (\<lambda>c. c \<noteq> comma) t"
    let ?e = "length line - length t + length ?f"
    have e: "?e = Suc (length pre) + length ?f"
      by (simp add: line)
    have step: "regexExec line i = Some (?e, ?f)"
      using less.prems by (simp add: regexExec_def Cons fieldMatch_plain [OF tq])
    have drop_e: "drop ?e line = dropWhile (\<lambda>c. c \<noteq> comma) t"
    proof -
      have "drop ?e line = drop (length ?f) t"
        unfolding e by (simp add: line)
      also have "\<dots> = dropWhile (\<lambda>c. c \<noteq> comma) t"
        by (metis append_eq_conv_conj takeWhile_dropWhile_id)
      finally show ?thesis .
    qed
    have le: "?e \<le> length line"
      unfolding e by (simp add: line) (metis length_takeWhile_le)
    have "execLoop line i matches = execLoop line ?e (matches @ [?f])"
      by (subst execLoop.simps) (simp add: step)
    also have "\<dots> = Some ((matches @ [?f])
                  @ (case dropWhile (\<lambda>c. c \<noteq> comma) (drop ?e line) of
                       [] \<Rightarrow> [] | c # t' \<Rightarrow> commaFields t'))"
      using pre le by (intro less.hyps) (simp_all add: e line)
    also have "\<dots> = Some (matches @ commaFields t)"
      by (subst (2) commaFields_split) (simp add: drop_e)
    finally show ?thesis
      by (simp add: Cons)
  qed
qed

lemma execLoop_plain:
  assumes "dquote \<notin> set line" and "line \<noteq> []" and "hd line \<noteq> comma"
  shows "execLoop line 0 [] = Some (commaFields line)"
proof -
  let ?f = "takeWhile (\<lambda>c. c \<noteq> comma) line"
  have pos: "0 < length ?f"
    using assms(2,3) by (cases line) auto
  have "execLoop line 0 [] = execLoop line (length ?f) [?f]"
    by (subst execLoop.simps) (simp add: regexExec_def fieldMatch_plain [OF assms(1)])
  also have "\<dots> = Some ([?f] @ (case dropWhile (\<lambda>c. c \<noteq> comma) (drop (length ?f) line) of
                                   [] \<Rightarrow> [] | c # t \<Rightarrow> commaFields t))"
    using assms(1) pos by (rule execLoop_plain_rest) (rule length_takeWhile_le)
  also have "drop (length ?f) line = dropWhile (\<lambda>c. c \<noteq> comma) line"
    by (metis append_eq_conv_conj takeWhile_dropWhile_id)
  finally show ?thesis
    by (subst commaFields_split) simp
qed

subsection \<open>A line that begins with a comma\<close>

text \<open>
  When the first match is empty (the line begins with a comma, or with a quote that
  no quote closes) \<open>lastIndex\<close> stays at 0 and every call of \<^verbatim>\<open>regex.exec\<close>
  returns the same match: the loop never ends.
\<close>

lemma execLoop_empty_first_match:
  assumes "fst (fieldMatch line) = 0"
  shows "execLoop line 0 matches = None"
proof -
  obtain val where first: "regexExec line 0 = Some (0, val)"
    using assms by (cases "fieldMatch line") (simp add: regexExec_def)
  have "\<not> (l = line \<and> i = 0)" if "execLoop l i ms = Some found" for l i ms found
    using that
  proof (induction l i ms found rule: execLoop.raw_induct [rotated 1, consumes 1])
    case (1 self l i ms found)
    show ?case
    proof
      assume "l = line \<and> i = 0"
      with "1.hyps" first have "self line 0 (ms @ [val]) = Some found"
        by simp
      from "1.IH" [OF this] show False by simp
    qed
  qed
  then show ?thesis
    by (cases "execLoop line 0 matches") auto
qed

lemma leading_comma_row_never_returns:
  "parseTransactionsFromCSV fromDecimal (csvHeader @ '',b,c,d'') = Inl NeverReturns"
proof -
  have lines: "drop 1 (splitLines (csvHeader @ '',b,c,d'')) = ['',b,c,d'']"
    by code_simp
  have line: "trim '',b,c,d'' = '',b,c,d''"
    by code_simp
  have "fst (fieldMatch '',b,c,d'') = 0"
    by code_simp
  then have "execLoop '',b,c,d'' 0 [] = None"
    by (rule execLoop_empty_first_match)
  then have "parseLine fromDecimal [] '',b,c,d'' = Inl NeverReturns"
    by (simp add: parseLine_def line)
  then show ?thesis
    unfolding parseTransactionsFromCSV_def lines by simp
qed

subsection \<open>A row with fewer than seven fields\<close>

lemma parseLine_skip:
  assumes "execLoop (trim row) 0 [] = Some matches" and "length matches < 7"
  shows "parseLine Number txMap row = Inr txMap"
  using assms by (simp add: parseLine_def Let_def)

lemma parseLines_skip:
  assumes "execLoop (trim row) 0 [] = Some matches" and "length matches < 7"
  shows "parseLines Number txMap untyped (before @ row # after)
           = parseLines Number txMap untyped (before @ after)"
proof (induction before arbitrary: txMap untyped)
  case Nil
  show ?case by (simp add: parseLine_skip [OF assms])
next
  case (Cons l ls)
  show ?case
    by (simp add: Cons.IH split: sum.splits failure.splits)
qed

text \<open>
  Claim C9, as amended. In every CSV text, a data row on which the loop of
  \<^verbatim>\<open>regex.exec\<close> ends with fewer than 7 matches contributes nothing: the call
  returns what it returns on the text without the row, the same transactions with the
  same splits, or the same failure. The skip is silent: the result of the call is
  the list of transactions and nothing beside it, so a text with such a row and the
  text without it cannot be told apart afterwards.
\<close>

theorem malformed_row_skipped_silently:
  assumes "splitLines csvContent = header # before @ row # after"
      and "splitLines csvContent' = header # before @ after"
      and "execLoop (trim row) 0 [] = Some matches"
      and "length matches < 7"
  shows "parseTransactionsFromCSV Number csvContent = parseTransactionsFromCSV Number csvContent'"
proof -
  have "parseLines Number [] False (before @ row # after)
          = parseLines Number [] False (before @ after)"
    using assms(3,4) by (rule parseLines_skip)
  then show ?thesis
    by (simp add: parseTransactionsFromCSV_def assms(1,2))
qed


text \<open>
  On the rows of \<open>txCafe\<close> with the row \<^verbatim>\<open>a,b,c,d\<close> between them.
\<close>

lemma rowShort_matches: "execLoop (trim rowShort) 0 [] = Some [''a'', ''b'', ''c'', ''d'']"
  by code_simp

lemma lines_with_rowShort:
  "splitLines (csvHeader @ joinLines [rowFood, rowShort, rowBank])
     = butlast csvHeader # [rowFood] @ rowShort # [rowBank]"
  by code_simp

lemma lines_without_rowShort:
  "splitLines (csvHeader @ joinLines [rowFood, rowBank])
     = butlast csvHeader # [rowFood] @ [rowBank]"
  by code_simp

lemma parse_without_rowShort:
  "parseTransactionsFromCSV fromDecimal (csvHeader @ joinLines [rowFood, rowBank])
     = Inr [txCafe \<lparr> tx_payee := Some ''The Corner Cafe'' \<rparr>]"
  by code_simp

theorem malformed_row_skipped_silently_witness:
  "length [''a'', ''b'', ''c'', ''d''] < (7::nat)
   \<and> parseTransactionsFromCSV fromDecimal (csvHeader @ joinLines [rowFood, rowShort, rowBank])
       = Inr [txCafe \<lparr> tx_payee := Some ''The Corner Cafe'' \<rparr>]"
proof -
  have short: "length [''a'', ''b'', ''c'', ''d''] < (7::nat)"
    by simp
  from malformed_row_skipped_silently
         [OF lines_with_rowShort lines_without_rowShort rowShort_matches short, of fromDecimal]
       parse_without_rowShort
  show ?thesis
    by simp
qed

text \<open>
  Claim C9 as it is stated, that the skip is reported beside the result, fails: the
  text of the header and the four-field row \<^verbatim>\<open>a,b,c,d\<close> gives the empty list,
  which is all the call returns, and is what it returns for the header alone.
\<close>

theorem malformed_row_no_warning_counterexample:
  "parseTransactionsFromCSV fromDecimal (csvHeader @ rowShort) = Inr []
   \<and> parseTransactionsFromCSV fromDecimal csvHeader = Inr []"
  by code_simp

subsection \<open>The regular expression past the first match\<close>

text \<open>
  Once \<open>lastIndex\<close> is past 0 the loop ends, with the matches of \<open>commaMatches\<close>.
  So the loop ends whenever its first match is not empty.
\<close>

lemma drop_after_suffix:
  "line = pre @ c # t \<Longrightarrow> drop (length line - length t + n) line = drop n t"
  by simp

lemma execLoop_rest:
  "0 < i \<Longrightarrow> execLoop line i matches = Some (matches @ commaMatches (drop i line))"
proof (induction "length line - i" arbitrary: i matches rule: less_induct)
  case less
  show ?case
  proof (cases "dropWhile (\<lambda>c. c \<noteq> comma) (drop i line)")
    case Nil
    from less.prems have "regexExec line i = None"
      by (simp add: regexExec_def Nil)
    moreover have "commaMatches (drop i line) = []"
      by (subst commaMatches.simps) (simp add: Nil)
    ultimately show ?thesis
      by (subst execLoop.simps) simp
  next
    case (Cons c t)
    obtain n val where fm: "fieldMatch t = (n, val)"
      by (cases "fieldMatch t")
    have "drop i line = takeWhile (\<lambda>c. c \<noteq> comma) (drop i line) @ c # t"
      using Cons by (metis takeWhile_dropWhile_id)
    then have line: "line = (take i line @ takeWhile (\<lambda>c. c \<noteq> comma) (drop i line)) @ c # t"
      by (metis append_assoc append_take_drop_id)
    define pre where "pre = take i line @ takeWhile (\<lambda>c. c \<noteq> comma) (drop i line)"
    have i: "i < length line"
      using Cons by (cases "i < length line") auto
    have line': "line = pre @ c # t" and pre: "i \<le> length pre"
      using line i by (simp_all add: pre_def)
    let ?e = "length line - length t + n"
    have step: "regexExec line i = Some (?e, val)"
      using less.prems by (simp add: regexExec_def Cons fm)
    have drop_e: "drop ?e line = drop n t"
      using line' by (rule drop_after_suffix)
    have e: "?e = Suc (length pre) + n"
      by (simp add: line')
    have "execLoop line i matches = execLoop line ?e (matches @ [val])"
      by (subst execLoop.simps) (simp add: step)
    also have "\<dots> = Some ((matches @ [val]) @ commaMatches (drop ?e line))"
      using pre i by (intro less.hyps) (simp_all add: e)
    also have "\<dots> = Some (matches @ commaMatches (drop i line))"
      by (subst (2) commaMatches.simps) (simp add: Cons fm drop_e)
    finally show ?thesis .
  qed
qed

lemma execLoop_first:
  assumes "fieldMatch line = (n, val)" and "0 < n"
  shows "execLoop line 0 [] = Some (val # commaMatches (drop n line))"
proof -
  have "execLoop line 0 [] = execLoop line n [val]"
    by (subst execLoop.simps) (simp add: regexExec_def assms(1))
  with execLoop_rest [OF assms(2), of line "[val]"] show ?thesis
    by simp
qed

subsection \<open>Fields without quote characters\<close>

lemma undoubleQuotes_plain: "dquote \<notin> set q \<Longrightarrow> undoubleQuotes q = q"
  by (induction q rule: undoubleQuotes.induct) auto

lemma quotedBody_closed:
  "dquote \<notin> set q \<Longrightarrow> c \<noteq> dquote \<Longrightarrow> quotedBody (q @ dquote # c # rest) = Some q"
  by (induction q) auto

lemma fieldMatch_bare:
  assumes "comma \<notin> set f" and "dquote \<notin> set f"
  shows "fieldMatch (f @ comma # rest) = (length f, f)" and "fieldMatch f = (length f, f)"
proof -
  have all: "\<forall>c \<in> set f. c \<noteq> dquote \<and> c \<noteq> comma"
    using assms by auto
  have tw1: "takeWhile (\<lambda>c. c \<noteq> dquote \<and> c \<noteq> comma) (f @ comma # rest) = f"
    using all by simp
  have none1: "(case f @ comma # rest of [] \<Rightarrow> None
                  | c # cs \<Rightarrow> if c = dquote then quotedBody cs else None) = None"
    using assms by (cases f) (auto simp: comma_def dquote_def)
  show "fieldMatch (f @ comma # rest) = (length f, f)"
    unfolding fieldMatch_def none1 Let_def tw1 by simp
  have tw2: "takeWhile (\<lambda>c. c \<noteq> dquote \<and> c \<noteq> comma) f = f"
    using all by simp
  have none2: "(case f of [] \<Rightarrow> None
                  | c # cs \<Rightarrow> if c = dquote then quotedBody cs else None) = None"
    using assms by (cases f) auto
  show "fieldMatch f = (length f, f)"
    unfolding fieldMatch_def none2 Let_def tw2 by simp
qed

lemma fieldMatch_quoted:
  assumes "dquote \<notin> set q"
  shows "fieldMatch (dquote # q @ dquote # comma # rest) = (length q + 2, q)"
proof -
  have "quotedBody (q @ dquote # comma # rest) = Some q"
    using assms by (intro quotedBody_closed) (simp_all add: comma_def dquote_def)
  then show ?thesis
    by (simp add: fieldMatch_def undoubleQuotes_plain [OF assms])
qed

lemma commaMatches_bare:
  assumes "comma \<notin> set f" and "dquote \<notin> set f"
  shows "commaMatches (comma # f @ comma # rest) = f # commaMatches (comma # rest)"
    and "commaMatches (comma # f) = [f]"
proof -
  show "commaMatches (comma # f @ comma # rest) = f # commaMatches (comma # rest)"
    by (subst commaMatches.simps) (simp add: fieldMatch_bare(1) [OF assms])
  have "commaMatches [] = []"
    by (subst commaMatches.simps) simp
  then show "commaMatches (comma # f) = [f]"
    by (subst commaMatches.simps) (simp add: fieldMatch_bare(2) [OF assms])
qed

lemma commaMatches_quoted:
  assumes "dquote \<notin> set q"
  shows "commaMatches (comma # dquote # q @ dquote # comma # rest) = q # commaMatches (comma # rest)"
  by (subst commaMatches.simps) (simp add: fieldMatch_quoted [OF assms])


subsection \<open>A written row, read\<close>

lemma serializeRow_rowText:
  "serializeRow numberToString tx split =
     rowText (tx_id tx) (tx_date tx) (numberToString (tx_createdAt tx))
       (doubleQuotes (payeeText tx)) (doubleQuotes (descriptionText tx))
       (accountId split) (numberToString (amount split))"
  by (simp add: serializeRow_def rowText_def payeeText_def descriptionText_def Let_def)

lemma doubleQuotes_plain: "dquote \<notin> set s \<Longrightarrow> doubleQuotes s = s"
  by (induction s) (auto simp: doubleQuotes_def)

lemma execLoop_rowText:
  assumes "a \<noteq> []" "bare a" "bare b" "bare c" "dquote \<notin> set p" "dquote \<notin> set d" "bare e" "bare g"
  shows "execLoop (rowText a b c p d e g) 0 [] = Some [a, b, c, p, d, e, g]"
proof -
  let ?r6 = "comma # g"
  let ?r5 = "comma # e @ ?r6"
  let ?r4 = "comma # dquote # d @ dquote # ?r5"
  let ?r3 = "comma # dquote # p @ dquote # ?r4"
  let ?r2 = "comma # c @ ?r3"
  let ?r1 = "comma # b @ ?r2"
  have row: "rowText a b c p d e g = a @ ?r1"
    by (simp add: rowText_def)
  have first: "fieldMatch (a @ ?r1) = (length a, a)"
    using assms(2) by (simp add: bare_def fieldMatch_bare(1))
  have "commaMatches ?r6 = [g]"
    using assms(8) by (simp add: bare_def commaMatches_bare(2))
  moreover have "commaMatches ?r5 = e # commaMatches ?r6"
    using assms(7) by (simp add: bare_def commaMatches_bare(1))
  moreover have "commaMatches ?r4 = d # commaMatches ?r5"
    using assms(6) by (rule commaMatches_quoted)
  moreover have "commaMatches ?r3 = p # commaMatches ?r4"
    using assms(5) by (rule commaMatches_quoted)
  moreover have "commaMatches ?r2 = c # commaMatches ?r3"
    using assms(4) by (simp add: bare_def commaMatches_bare(1))
  moreover have "commaMatches ?r1 = b # commaMatches ?r2"
    using assms(3) by (simp add: bare_def commaMatches_bare(1))
  ultimately have rest: "commaMatches ?r1 = [b, c, p, d, e, g]"
    by simp
  have "execLoop (a @ ?r1) 0 [] = Some (a # commaMatches (drop (length a) (a @ ?r1)))"
    using first assms(1) by (intro execLoop_first) simp_all
  then show ?thesis
    by (simp add: row rest)
qed

lemma scanRow_inQuote:
  "dquote \<notin> set q \<Longrightarrow>
     scanRow row True cur (q @ dquote # rest) = scanRow row False (cur @ q) rest"
  by (induction q arbitrary: cur) auto

lemma scanRow_bare:
  "bare f \<Longrightarrow> scanRow row False cur (f @ comma # rest) = scanRow (row @ [cur @ f]) False [] rest"
  by (induction f arbitrary: cur) (auto simp: bare_def comma_def dquote_def)

lemma scanRow_bare_end:
  "bare f \<Longrightarrow> scanRow row False cur f = row @ [cur @ f]"
  by (induction f arbitrary: cur) (auto simp: bare_def)

lemma scanRow_quoted:
  assumes "dquote \<notin> set q"
  shows "scanRow row False [] (dquote # q @ dquote # comma # rest) = scanRow (row @ [q]) False [] rest"
proof -
  have "scanRow row False [] (dquote # q @ dquote # comma # rest)
          = scanRow row True [] (q @ dquote # comma # rest)"
    by simp
  also have "\<dots> = scanRow row False q (comma # rest)"
    using assms by (simp add: scanRow_inQuote)
  also have "\<dots> = scanRow (row @ [q]) False [] rest"
    by (simp add: comma_def dquote_def)
  finally show ?thesis .
qed

lemma scanRow_rowText:
  assumes "bare a" "bare b" "bare c" "dquote \<notin> set p" "dquote \<notin> set d" "bare e" "bare g"
  shows "scanRow [] False [] (rowText a b c p d e g) = [a, b, c, p, d, e, g]"
proof -
  have neq: "comma \<noteq> dquote"
    by (simp add: comma_def dquote_def)
  show ?thesis
    using assms neq
    by (simp add: rowText_def scanRow_bare scanRow_inQuote scanRow_bare_end)
qed

lemma cleanCell_plain: "dquote \<notin> set c \<Longrightarrow> cleanCell c = c"
  by (cases c) (auto simp: cleanCell_def)

lemma trim_id:
  assumes "s \<noteq> []" "\<not> isWhiteSpace (hd s)" "\<not> isWhiteSpace (last s)"
  shows "trim s = s"
proof -
  have "dropWhile isWhiteSpace s = s"
    using assms(1,2) by (cases s) auto
  moreover have "dropWhile isWhiteSpace (rev s) = rev s"
    using assms(1,3) by (cases "rev s") (auto simp: last_rev [symmetric] hd_rev)
  ultimately show ?thesis
    by (simp add: trim_def)
qed


lemma unquotedText_bare: "unquotedText s \<Longrightarrow> bare s"
  by (simp add: unquotedText_def bare_def)

lemma parseLine_serializeRow:
  fixes tx :: "'n Transaction"
  assumes w: "writable tx"
      and acc: "unquotedText (accountId split)"
      and created: "numberText numberToString Number (tx_createdAt tx)"
      and amt: "numberText numberToString Number (amount split)"
  shows "parseLine Number txMap (serializeRow numberToString tx split) =
           Inr (pushSplit (if tx_id tx \<in> set (map tx_id txMap) then txMap
                           else txMap @ [readBack tx \<lparr> tx_splits := [] \<rparr>])
                          (tx_id tx) split)"
proof -
  let ?a = "tx_id tx" and ?b = "tx_date tx" and ?c = "numberToString (tx_createdAt tx)"
  let ?p = "payeeText tx" and ?d = "descriptionText tx"
  let ?e = "accountId split" and ?g = "numberToString (amount split)"
  let ?row = "rowText ?a ?b ?c ?p ?d ?e ?g"
  from w have a: "?a \<noteq> []" "\<not> isWhiteSpace (hd ?a)" "bare ?a" and b: "bare ?b"
    and p: "dquote \<notin> set ?p" and d: "dquote \<notin> set ?d"
    by (simp_all add: writable_def unquotedText_bare quotedText_def)
  from created have c: "bare ?c" and readc: "Number (Some ?c) = tx_createdAt tx"
    by (simp_all add: numberText_def unquotedText_bare)
  from amt have g: "bare ?g" "?g \<noteq> []" "\<not> isWhiteSpace (last ?g)"
    and readg: "Number (Some ?g) = amount split"
    by (simp_all add: numberText_def unquotedText_bare)
  from acc have e: "bare ?e"
    by (rule unquotedText_bare)
  have row: "serializeRow numberToString tx split = ?row"
    by (simp add: serializeRow_rowText doubleQuotes_plain p d)
  have "?row \<noteq> []" "hd ?row = hd ?a" "last ?row = last ?g"
    using a(1) g(2) by (simp_all add: rowText_def)
  then have trim: "trim ?row = ?row"
    using a(2) g(3) by (intro trim_id) simp_all
  have matches: "execLoop ?row 0 [] = Some [?a, ?b, ?c, ?p, ?d, ?e, ?g]"
    using a(1,3) b c p d e g(1) by (rule execLoop_rowText)
  have cells: "map cleanCell (scanRow [] False [] ?row) = [?a, ?b, ?c, ?p, ?d, ?e, ?g]"
    using a(3) b c p d e g(1)
    by (simp add: scanRow_rowText cleanCell_plain bare_def)
  have entry: "\<lparr> tx_id = ?a, tx_date = ?b, tx_payee = Some ?p, tx_description = Some ?d,
                  tx_splits = [], tx_createdAt = tx_createdAt tx \<rparr>
                 = readBack tx \<lparr> tx_splits := [] \<rparr>"
    by (simp add: readBack_def)
  have same: "\<lparr> accountId = ?e, amount = amount split \<rparr> = split"
    by simp
  show ?thesis
    unfolding row parseLine_def trim Let_def matches cells
    using \<open>?row \<noteq> []\<close>
    by (simp add: element_def readc readg entry same)
qed


subsection \<open>The written rows of a transaction, read\<close>

lemma pushSplit_last:
  assumes "tx_id entry \<notin> set (map tx_id txMap)"
  shows "pushSplit (txMap @ [entry]) (tx_id entry) split
           = txMap @ [entry \<lparr> tx_splits := tx_splits entry @ [split] \<rparr>]"
proof -
  have "map (\<lambda>tx. if tx_id tx = tx_id entry then tx \<lparr> tx_splits := tx_splits tx @ [split] \<rparr> else tx) txMap
          = txMap"
    using assms by (induction txMap) auto
  then show ?thesis
    by (simp add: pushSplit_def)
qed

lemma parseLines_more_rows:
  fixes tx :: "'n Transaction"
  assumes w: "writable tx"
      and fresh: "tx_id tx \<notin> set (map tx_id txMap)"
      and nums: "\<forall>x. numberText numberToString Number x"
  shows "list_all (\<lambda>split. unquotedText (accountId split)) later \<Longrightarrow>
         parseLines Number (txMap @ [readBack tx \<lparr> tx_splits := sofar \<rparr>]) untyped
             (map (serializeRow numberToString tx) later @ rest)
           = parseLines Number (txMap @ [readBack tx \<lparr> tx_splits := sofar @ later \<rparr>]) untyped rest"
proof (induction later arbitrary: sofar)
  case Nil
  then show ?case by simp
next
  case (Cons split later)
  let ?entry = "readBack tx \<lparr> tx_splits := sofar \<rparr>"
  have id: "tx_id ?entry = tx_id tx"
    by (simp add: readBack_def)
  have "parseLine Number (txMap @ [?entry]) (serializeRow numberToString tx split)
          = Inr (pushSplit (txMap @ [?entry]) (tx_id ?entry) split)"
    using w Cons.prems nums by (subst parseLine_serializeRow) (simp_all add: id)
  also have "\<dots> = Inr (txMap @ [?entry \<lparr> tx_splits := tx_splits ?entry @ [split] \<rparr>])"
    using fresh by (subst pushSplit_last) (simp_all add: id)
  also have "?entry \<lparr> tx_splits := tx_splits ?entry @ [split] \<rparr>
               = readBack tx \<lparr> tx_splits := sofar @ [split] \<rparr>"
    by simp
  finally have step: "parseLine Number (txMap @ [?entry]) (serializeRow numberToString tx split)
          = Inr (txMap @ [readBack tx \<lparr> tx_splits := sofar @ [split] \<rparr>])" .
  from Cons.prems have "list_all (\<lambda>split. unquotedText (accountId split)) later"
    by simp
  from Cons.IH [OF this, of "sofar @ [split]"] step show ?case
    by simp
qed

lemma parseLines_transaction:
  fixes tx :: "'n Transaction"
  assumes w: "writable tx"
      and fresh: "tx_id tx \<notin> set (map tx_id txMap)"
      and nums: "\<forall>x. numberText numberToString Number x"
  shows "parseLines Number txMap untyped
             (map (serializeRow numberToString tx) (tx_splits tx) @ rest)
           = parseLines Number (txMap @ [readBack tx]) untyped rest"
proof -
  from w obtain split later where splits: "tx_splits tx = split # later"
    by (cases "tx_splits tx") (auto simp: writable_def)
  from w splits have accs: "unquotedText (accountId split)"
      "list_all (\<lambda>split. unquotedText (accountId split)) later"
    by (simp_all add: writable_def)
  let ?empty = "readBack tx \<lparr> tx_splits := [] \<rparr>"
  have id: "tx_id ?empty = tx_id tx"
    by (simp add: readBack_def)
  have "parseLine Number txMap (serializeRow numberToString tx split)
          = Inr (pushSplit (txMap @ [?empty]) (tx_id ?empty) split)"
    using w accs(1) nums fresh by (subst parseLine_serializeRow) (simp_all add: id)
  also have "\<dots> = Inr (txMap @ [?empty \<lparr> tx_splits := tx_splits ?empty @ [split] \<rparr>])"
    using fresh by (subst pushSplit_last) (simp_all add: id)
  also have "?empty \<lparr> tx_splits := tx_splits ?empty @ [split] \<rparr>
               = readBack tx \<lparr> tx_splits := [split] \<rparr>"
    by simp
  finally have first: "parseLine Number txMap (serializeRow numberToString tx split)
          = Inr (txMap @ [readBack tx \<lparr> tx_splits := [split] \<rparr>])" .
  have whole: "readBack tx \<lparr> tx_splits := [split] @ later \<rparr> = readBack tx"
    by (simp add: readBack_def splits)
  from parseLines_more_rows [OF w fresh nums accs(2), of "[split]" untyped rest] first whole
  show ?thesis
    by (simp add: splits)
qed

lemma parseLines_transactions:
  fixes txs :: "'n Transaction list"
  assumes nums: "\<forall>x. numberText numberToString Number x"
  shows "list_all writable txs \<Longrightarrow> distinct (map tx_id txMap @ map tx_id txs) \<Longrightarrow>
         parseLines Number txMap False
             (concat (map (\<lambda>tx. map (serializeRow numberToString tx) (tx_splits tx)) txs))
           = Inr (txMap @ map readBack txs)"
proof (induction txs arbitrary: txMap)
  case Nil
  then show ?case by simp
next
  case (Cons tx txs)
  from Cons.prems have w: "writable tx" and ws: "list_all writable txs"
    and fresh: "tx_id tx \<notin> set (map tx_id txMap)"
    by auto
  have id: "tx_id (readBack tx) = tx_id tx"
    by (simp add: readBack_def)
  from Cons.prems(2) have "distinct (map tx_id (txMap @ [readBack tx]) @ map tx_id txs)"
    by (auto simp: id)
  from Cons.IH [OF ws this] parseLines_transaction [OF w fresh nums]
  show ?case
    by simp
qed

subsection \<open>The written text, split into lines\<close>

lemma splitLines_line:
  "LF \<notin> set h \<Longrightarrow> CR \<notin> set h \<Longrightarrow> splitLines (h @ LF # s) = h # splitLines s"
proof (induction h)
  case Nil
  then show ?case by (cases s) simp_all
next
  case (Cons c h)
  then obtain d cs where rest: "h @ LF # s = d # cs"
    by (cases "h @ LF # s") auto
  from Cons have "splitLines (h @ LF # s) = h # splitLines s"
    by simp
  with Cons.prems rest show ?case
    by (auto simp del: splitLines.simps simp add: splitLines.simps(3) [of c d cs])
qed

lemma splitLines_plain:
  "LF \<notin> set h \<Longrightarrow> CR \<notin> set h \<Longrightarrow> splitLines h = [h]"
proof (induction h rule: splitLines.induct)
  case 1
  then show ?case by simp
next
  case (2 c)
  then show ?case by simp
next
  case (3 c d cs)
  then show ?case by auto
qed

lemma splitLines_joinLines:
  "rows \<noteq> [] \<Longrightarrow> list_all (\<lambda>r. LF \<notin> set r \<and> CR \<notin> set r) rows
     \<Longrightarrow> splitLines (joinLines rows) = rows"
proof (induction rows rule: joinLines.induct)
  case 1
  then show ?case by simp
next
  case (2 x)
  then show ?case by (simp add: splitLines_plain)
next
  case (3 x y ys)
  then show ?case by (simp add: splitLines_line)
qed


lemma serializeRow_one_line:
  fixes tx :: "'n Transaction"
  assumes w: "writable tx"
      and acc: "unquotedText (accountId split)"
      and nums: "\<forall>x. numberText numberToString Number x"
  shows "LF \<notin> set (serializeRow numberToString tx split)
       \<and> CR \<notin> set (serializeRow numberToString tx split)"
proof -
  have chars: "comma \<noteq> LF" "comma \<noteq> CR" "dquote \<noteq> LF" "dquote \<noteq> CR"
    by (simp_all add: comma_def dquote_def LF_def CR_def)
  from nums have "unquotedText (numberToString (tx_createdAt tx))"
      "unquotedText (numberToString (amount split))"
    by (simp_all add: numberText_def)
  with w acc chars show ?thesis
    by (simp add: serializeRow_rowText rowText_def writable_def unquotedText_def quotedText_def
          doubleQuotes_plain)
qed

lemma rows_one_line:
  fixes txs :: "'n Transaction list"
  assumes nums: "\<forall>x. numberText numberToString Number x"
  shows "list_all writable txs \<Longrightarrow>
         list_all (\<lambda>r. LF \<notin> set r \<and> CR \<notin> set r)
           (concat (map (\<lambda>tx. map (serializeRow numberToString tx) (tx_splits tx)) txs))"
proof (induction txs)
  case Nil
  then show ?case by simp
next
  case (Cons tx txs)
  then have w: "writable tx" by simp
  have "list_all (\<lambda>r. LF \<notin> set r \<and> CR \<notin> set r)
          (map (serializeRow numberToString tx) (tx_splits tx))"
    unfolding list_all_iff
  proof
    fix r assume "r \<in> set (map (serializeRow numberToString tx) (tx_splits tx))"
    then obtain split where "split \<in> set (tx_splits tx)"
        and r: "r = serializeRow numberToString tx split"
      by auto
    with w have "unquotedText (accountId split)"
      by (simp add: writable_def list_all_iff)
    with w nums show "LF \<notin> set r \<and> CR \<notin> set r"
      unfolding r by (intro serializeRow_one_line)
  qed
  with Cons show ?case by simp
qed

lemma sortByCreatedAtDesc_mset: "mset (sortByCreatedAtDesc txs) = mset txs"
  by (simp add: sortByCreatedAtDesc_def)

text \<open>
  What does hold of writing and reading back. Let the host's conversions write every
  number as a text without comma, quote and line break that \<^verbatim>\<open>Number\<close> reads
  back. For transactions with different ids, each with a split, whose ids, dates and
  account ids hold no comma, quote or line break (the id not empty and not beginning
  with white space) and whose payee and description hold no quote and no line break,
  reading back what was written returns, and returns the transactions that were
  written, a missing payee or description as the empty string, in descending order of
  \<open>createdAt\<close>. Commas in payee and description survive.
\<close>

lemma roundtrip_writable:
  fixes txs :: "('n::linorder) Transaction list"
  assumes nums: "\<forall>x. numberText numberToString Number x"
      and w: "list_all writable txs"
      and ids: "distinct (map tx_id txs)"
  shows "\<exists>parsed. parseTransactionsFromCSV Number (serializeTransactionsToCSV numberToString txs)
                     = Inr parsed
                 \<and> parsed = sortByCreatedAtDesc (map readBack txs)
                 \<and> mset parsed = mset (map readBack txs)"
proof -
  let ?rows = "concat (map (\<lambda>tx. map (serializeRow numberToString tx) (tx_splits tx)) txs)"
  let ?head = "''Transaction ID,Date,Created At,Payee,Description,Account ID,Amount''"
  have head: "LF \<notin> set ?head" "CR \<notin> set ?head"
    by (simp_all add: LF_def CR_def)
  have lines: "splitLines (serializeTransactionsToCSV numberToString txs)
                 = ?head # splitLines (joinLines ?rows)"
    using splitLines_line [OF head, of "joinLines ?rows"]
    by (simp add: serializeTransactionsToCSV_def csvHeader_def)
  have read: "parseLines Number [] False ?rows = Inr (map readBack txs)"
    using parseLines_transactions [OF nums w, of "[]"] ids by simp
  have "parseLines Number [] False (splitLines (joinLines ?rows)) = Inr (map readBack txs)"
  proof (cases "?rows = []")
    case True
    from w True have "txs = []"
      by (cases txs) (auto simp: writable_def)
    with True show ?thesis
      by (simp add: parseLine_def trim_def)
  next
    case False
    with rows_one_line [OF nums w] have "splitLines (joinLines ?rows) = ?rows"
      by (intro splitLines_joinLines)
    with read show ?thesis by simp
  qed
  then have "parseTransactionsFromCSV Number (serializeTransactionsToCSV numberToString txs)
               = Inr (sortByCreatedAtDesc (map readBack txs))"
    by (simp add: parseTransactionsFromCSV_def lines)
  then show ?thesis
    by (simp add: sortByCreatedAtDesc_mset)
qed

subsection \<open>Writing and reading back\<close>

text \<open>
  The decimal conversions of the examples are such conversions, and \<open>txLunch\<close> is
  such a transaction: it is read back with the empty string for its missing payee.
\<close>

lemma digitVal_digitChar: "0 \<le> d \<Longrightarrow> d < 10 \<Longrightarrow> digitVal (digitChar d) = d"
  by (simp add: digitVal_def digitChar_def)

lemma digitsVal_snoc: "digitsVal acc (cs @ [c]) = 10 * digitsVal acc cs + digitVal c"
  by (induction cs arbitrary: acc) simp_all

lemma digitsVal_digitsOf: "0 \<le> v \<Longrightarrow> digitsVal 0 (digitsOf v) = v"
proof (induction v rule: digitsOf.induct)
  case (1 v)
  show ?case
  proof (cases "v < 10")
    case True
    with "1.prems" show ?thesis
      by (subst digitsOf.simps) (simp add: digitVal_digitChar)
  next
    case False
    with "1.prems" have "digitsVal 0 (digitsOf (v div 10)) = v div 10"
      by (intro "1.IH") simp_all
    with False show ?thesis
      by (subst digitsOf.simps) (simp add: digitsVal_snoc digitVal_digitChar)
  qed
qed

lemma digitChar_isDigit: "0 \<le> d \<Longrightarrow> d < 10 \<Longrightarrow> isDigit (digitChar d)"
proof -
  assume "0 \<le> d" "d < 10"
  then have "d = 0 \<or> d = 1 \<or> d = 2 \<or> d = 3 \<or> d = 4 \<or> d = 5 \<or> d = 6 \<or> d = 7 \<or> d = 8 \<or> d = 9"
    by presburger
  then show ?thesis
    by (auto simp: isDigit_def digitChar_def less_eq_char_def)
qed

lemma digitsOf_digits: "0 \<le> v \<Longrightarrow> digitsOf v \<noteq> [] \<and> list_all isDigit (digitsOf v)"
proof (induction v rule: digitsOf.induct)
  case (1 v)
  show ?case
  proof (cases "v < 10")
    case True
    with "1.prems" show ?thesis
      by (subst (1 2) digitsOf.simps) (simp add: digitChar_isDigit)
  next
    case False
    with "1.prems" have "list_all isDigit (digitsOf (v div 10))"
      using "1.IH" by simp
    with False show ?thesis
      by (subst (1 2) digitsOf.simps) (simp add: digitChar_isDigit)
  qed
qed

lemma isDigit_plain:
  "isDigit c \<Longrightarrow> c \<noteq> comma \<and> c \<noteq> dquote \<and> c \<noteq> LF \<and> c \<noteq> CR \<and> c \<noteq> CHR ''-'' \<and> \<not> isWhiteSpace c"
  by (auto simp: isDigit_def comma_def dquote_def LF_def CR_def isWhiteSpace_def less_eq_char_def)

lemma numberText_decimal: "numberText decimal fromDecimal x"
proof (cases "x < 0")
  case True
  then have digits: "digitsOf (- x) \<noteq> []" "list_all isDigit (digitsOf (- x))"
    using digitsOf_digits [of "- x"] by simp_all
  have read: "fromDecimal (Some (decimal x)) = x"
    using True by (simp add: fromDecimal_def decimal_def digitsVal_digitsOf)
  have "\<forall>c \<in> set (digitsOf (- x)). c \<noteq> comma \<and> c \<noteq> dquote \<and> c \<noteq> LF \<and> c \<noteq> CR \<and> \<not> isWhiteSpace c"
    using digits(2) isDigit_plain by (auto simp: list_all_iff)
  moreover have "last (digitsOf (- x)) \<in> set (digitsOf (- x))"
    using digits(1) by simp
  ultimately show ?thesis
    using True read digits(1)
    by (auto simp: numberText_def unquotedText_def decimal_def comma_def dquote_def LF_def CR_def)
next
  case False
  then have digits: "digitsOf x \<noteq> []" "list_all isDigit (digitsOf x)"
    using digitsOf_digits [of x] by simp_all
  then obtain c cs where cs: "digitsOf x = c # cs"
    by (cases "digitsOf x") auto
  with digits(2) have "c \<noteq> CHR ''-''"
    using isDigit_plain [of c] by simp
  with cs have read: "fromDecimal (Some (decimal x)) = x"
    using False digitsVal_digitsOf [of x] by (simp add: fromDecimal_def decimal_def)
  have "\<forall>c \<in> set (digitsOf x). c \<noteq> comma \<and> c \<noteq> dquote \<and> c \<noteq> LF \<and> c \<noteq> CR \<and> \<not> isWhiteSpace c"
    using digits(2) isDigit_plain by (auto simp: list_all_iff)
  moreover have "last (digitsOf x) \<in> set (digitsOf x)"
    using digits(1) by simp
  ultimately show ?thesis
    using False read digits(1)
    by (auto simp: numberText_def unquotedText_def decimal_def)
qed

lemma writable_txLunch: "writable txLunch"
  by (simp add: writable_def txLunch_def unquotedText_def quotedText_def payeeText_def
        descriptionText_def isWhiteSpace_def comma_def dquote_def LF_def CR_def)

lemma roundtrip_txLunch:
  "parseTransactionsFromCSV fromDecimal (serializeTransactionsToCSV decimal [txLunch])
     = Inr [txLunch \<lparr> tx_payee := Some [] \<rparr>]"
proof -
  have nums: "\<forall>x. numberText decimal fromDecimal x"
    by (simp add: numberText_decimal)
  have "list_all writable [txLunch]" "distinct (map tx_id [txLunch])"
    by (simp_all add: writable_txLunch)
  from roundtrip_writable [OF nums this]
  show ?thesis
    by (simp add: sortByCreatedAtDesc_def readBack_def payeeText_def descriptionText_def txLunch_def)
qed

text \<open>
  Claim C1 fails on the code. The claim: reading back what
  \<open>serializeTransactionsToCSV\<close> wrote gives the transactions that were written, a
  payee or description with commas, quote characters or line feeds unchanged. The
  code: \<open>txCafe\<close>, with the payee \<^verbatim>\<open>The "Corner" Cafe\<close> and a comma in its
  description, is written with the quotes doubled and read back with the payee
  \<^verbatim>\<open>The Corner Cafe\<close>. The scanner drops every quote character it meets, so the
  \<^verbatim>\<open>replace(/""/g, '"')\<close> of \<open>cleanCell\<close> finds none. The comma survives.
\<close>

theorem roundtrip_loses_quotes:
  "parseTransactionsFromCSV fromDecimal (serializeTransactionsToCSV decimal [txCafe])
     = Inr [txCafe \<lparr> tx_payee := Some ''The Corner Cafe'' \<rparr>]"
  by code_simp

text \<open>
  A line feed in a description ends the row in the written text. Both halves of the
  row have fewer than seven fields and are skipped: the transaction is not read back
  at all.
\<close>

lemma roundtrip_loses_line_feed:
  "parseTransactionsFromCSV fromDecimal (serializeTransactionsToCSV decimal [txNote]) = Inr []"
  by code_simp

end
